theory Spec2Isabelle
  imports Main "HOL-Library.Word"
begin

section \<open>Errors and outcomes\<close>

text \<open>
  The Go code returns plain \<open>error\<close> values: its own (\<open>errors.New\<close>, \<open>fmt.Errorf\<close>) and the ones
  of the standard library, passed on unchanged. The constructors below name them by the kind
  the specification gives each of them.
\<close>

datatype error =
    ConfigurationError string
      \<comment> \<open>\<open>errors.New("logger is mandatory")\<close>, \<open>errors.New("filesystem is mandatory")\<close>\<close>
  | FilesystemError string string
      \<comment> \<open>\<open>*fs.PathError\<close>: operation and path\<close>
  | TemplateSyntaxError string string
      \<comment> \<open>parse error of text/template: \<open>template: NAME:LINE: DIAGNOSTIC\<close>\<close>
  | TemplateNotFoundError string
      \<comment> \<open>\<open>template: no template "NAME" associated with template ""\<close>\<close>
  | UnsupportedTypeError string
      \<comment> \<open>\<open>don't know how to encode value of type %T\<close>\<close>
  | SerializationError string
      \<comment> \<open>\<open>*json.UnsupportedTypeError\<close>\<close>
  | NilDereference
      \<comment> \<open>\<open>runtime error: invalid memory address or nil pointer dereference\<close>\<close>
  | ExecutionError string error
      \<comment> \<open>\<open>template.ExecError\<close> for \<open>error calling FUNCTION: ...\<close>, wrapping the function's error\<close>
  | ExecutionFault string
      \<comment> \<open>\<open>template.ExecError\<close> raised by the engine itself (argument count, argument type)\<close>
  | WriteError string
      \<comment> \<open>an error returned by the destination's \<open>Write\<close>\<close>
  | ErrShortWrite
      \<comment> \<open>\<open>io.ErrShortWrite\<close>\<close>

text \<open>What a call of a Go function does when it returns at all: a value, an error, or a panic.\<close>

datatype 'a outcome = Ok 'a | Err error | Panic error

section \<open>The logger\<close>

text \<open>
  \<open>logr.Logger\<close> is a struct of a sink (an interface, possibly nil) and a level; its zero
  value has a nil sink and level 0.
\<close>

record LogSink =
  verbosity :: int

record Logger =
  sink :: "LogSink option"
  level :: int

definition GetSink :: "Logger \<Rightarrow> LogSink option" where
  "GetSink l = sink l"

definition zero_Logger :: Logger where
  "zero_Logger = \<lparr>sink = None, level = 0\<rparr>"

section \<open>The source filesystem\<close>

text \<open>
  An \<open>fs.FS\<close> is a tree of files and directories. A directory holds its entries as
  \<open>fs.ReadDir\<close> returns them (a list of names with their nodes, sorted by name). \<open>BadFile\<close>
  is a file whose content cannot be read, \<open>BadDir\<close> a directory whose entries cannot be listed.
  \<open>fs.Sub\<close> does not look at the tree: it returns a view that prefixes every path with the
  directory, so a filesystem is a tree together with the path elements of that prefix.
\<close>

datatype fsnode =
    File string
  | BadFile
  | Dir "(string \<times> fsnode) list"
  | BadDir

record filesys =
  tree :: fsnode
  base :: "string list"

fun IsDir :: "fsnode \<Rightarrow> bool" where
  "IsDir (Dir es) = True"
| "IsDir BadDir = True"
| "IsDir (File text) = False"
| "IsDir BadFile = False"

text \<open>The elements of a slash-separated path; \<open>''.''\<close> is the root, with no element.\<close>

fun split_slash :: "string \<Rightarrow> string list" where
  "split_slash [] = [[]]"
| "split_slash (c # cs) =
     (if c = CHR ''/'' then [] # split_slash cs
      else (case split_slash cs of [] \<Rightarrow> [[c]] | e # es \<Rightarrow> (c # e) # es))"

definition elements :: "string \<Rightarrow> string list" where
  "elements name = (if name = ''.'' then [] else split_slash name)"

definition valid_element :: "string \<Rightarrow> bool" where
  "valid_element e = (e \<noteq> [] \<and> e \<noteq> ''.'' \<and> e \<noteq> ''..'' \<and> CHR ''/'' \<notin> set e)"

text \<open>
  The well-formed UTF-8 sequences of unicode/utf8. After the first bytes \<open>E0\<close>, \<open>ED\<close>, \<open>F0\<close>
  and \<open>F4\<close> the second byte has a narrower range than \<open>80\<close> to \<open>BF\<close> (no overlong forms, no
  surrogates, nothing above U+10FFFF). \<open>rune_len\<close> is the number of bytes of the sequence
  at the head of a string, and 0 when there is none.
\<close>

definition byte_in :: "nat \<Rightarrow> nat \<Rightarrow> char \<Rightarrow> bool" where
  "byte_in lo hi c = (lo \<le> (of_char c :: nat) \<and> (of_char c :: nat) \<le> hi)"

definition second_lo :: "nat \<Rightarrow> nat" where
  "second_lo x = (if x = 0xE0 then 0xA0 else if x = 0xF0 then 0x90 else 0x80)"

definition second_hi :: "nat \<Rightarrow> nat" where
  "second_hi x = (if x = 0xED then 0x9F else if x = 0xF4 then 0x8F else 0xBF)"

fun rune_len :: "string \<Rightarrow> nat" where
  "rune_len [] = 0"
| "rune_len (c # cs) =
     (let x = of_char c :: nat
      in if x < 0x80 then 1
         else if 0xC2 \<le> x \<and> x \<le> 0xDF then
           (case cs of
              c1 # rest \<Rightarrow> if byte_in 0x80 0xBF c1 then 2 else 0
            | [] \<Rightarrow> 0)
         else if 0xE0 \<le> x \<and> x \<le> 0xEF then
           (case cs of
              c1 # c2 # rest \<Rightarrow>
                if byte_in (second_lo x) (second_hi x) c1 \<and> byte_in 0x80 0xBF c2 then 3 else 0
            | _ \<Rightarrow> 0)
         else if 0xF0 \<le> x \<and> x \<le> 0xF4 then
           (case cs of
              c1 # c2 # c3 # rest \<Rightarrow>
                if byte_in (second_lo x) (second_hi x) c1 \<and> byte_in 0x80 0xBF c2
                   \<and> byte_in 0x80 0xBF c3 then 4 else 0
            | _ \<Rightarrow> 0)
         else 0)"

text \<open>\<open>utf8.ValidString\<close>: the string is a sequence of well-formed sequences.\<close>

function ValidString :: "string \<Rightarrow> bool" where
  "ValidString [] = True"
| "ValidString (c # cs) =
     (if rune_len (c # cs) = 0 then False else ValidString (drop (rune_len (c # cs)) (c # cs)))"
  by pat_completeness auto
termination
  by (relation "measure length") auto

text \<open>
  \<open>fs.ValidPath\<close>: valid UTF-8, and either the root \<open>''.''\<close> or elements separated by single
  slashes, none of them empty, \<open>''.''\<close> or \<open>''..''\<close>.
\<close>

definition ValidPath :: "string \<Rightarrow> bool" where
  "ValidPath name =
     (ValidString name
      \<and> (name = ''.'' \<or> list_all (\<lambda>e. e \<noteq> [] \<and> e \<noteq> ''.'' \<and> e \<noteq> ''..'') (split_slash name)))"

primrec lookup_node :: "string list \<Rightarrow> fsnode \<Rightarrow> fsnode option" where
  "lookup_node [] n = Some n"
| "lookup_node (e # rest) n =
     (case n of
        Dir es \<Rightarrow> (case map_of es e of None \<Rightarrow> None | Some c \<Rightarrow> lookup_node rest c)
      | File text \<Rightarrow> None
      | BadFile \<Rightarrow> None
      | BadDir \<Rightarrow> None)"

text \<open>Opening a name of a filesystem: the node it names, if there is one.\<close>

definition resolve :: "filesys \<Rightarrow> string \<Rightarrow> fsnode option" where
  "resolve fsys name =
     (if ValidPath name then lookup_node (base fsys @ elements name) (tree fsys) else None)"

text \<open>\<open>fs.Sub\<close>: only the path is checked; \<open>''.''\<close> gives the filesystem itself.\<close>

definition fs_Sub :: "filesys \<Rightarrow> string \<Rightarrow> error + filesys" where
  "fs_Sub fsys dir =
     (if \<not> ValidPath dir then Inl (FilesystemError ''sub'' dir)
      else if dir = ''.'' then Inr fsys
      else Inr (fsys\<lparr>base := base fsys @ elements dir\<rparr>))"

text \<open>\<open>fs.ReadFile\<close>: the content of a readable regular file, an error for anything else.\<close>

definition fs_ReadFile :: "filesys \<Rightarrow> string \<Rightarrow> error + string" where
  "fs_ReadFile fsys name =
     (case resolve fsys name of
        Some (File text) \<Rightarrow> Inr text
      | Some BadFile \<Rightarrow> Inl (FilesystemError ''read'' name)
      | Some (Dir es) \<Rightarrow> Inl (FilesystemError ''read'' name)
      | Some BadDir \<Rightarrow> Inl (FilesystemError ''read'' name)
      | None \<Rightarrow> Inl (FilesystemError ''open'' name))"

text \<open>\<open>path.Join\<close> of a directory of the walk and the name of one of its entries.\<close>

definition path_Join :: "string \<Rightarrow> string \<Rightarrow> string" where
  "path_Join dir name = (if dir = ''.'' then name else dir @ ''/'' @ name)"

text \<open>
  \<open>fs.WalkDir\<close> with its callback. The callback gets the name, the entry (nil when the root
  could not be opened) and the error of opening or listing, and it transforms the caller's
  state; the first error it returns ends the walk. The callback of this program never
  returns \<open>fs.SkipDir\<close>, so that case of the Go function is not needed.
\<close>

type_synonym 's WalkDirFunc = "string \<Rightarrow> fsnode option \<Rightarrow> error option \<Rightarrow> 's \<Rightarrow> error option \<times> 's"

fun walkDir :: "string \<Rightarrow> fsnode \<Rightarrow> 's WalkDirFunc \<Rightarrow> 's \<Rightarrow> error option \<times> 's"
  and walkEntries :: "string \<Rightarrow> (string \<times> fsnode) list \<Rightarrow> 's WalkDirFunc \<Rightarrow> 's \<Rightarrow> error option \<times> 's"
where
  "walkDir name (File text) fn s = fn name (Some (File text)) None s"
| "walkDir name BadFile fn s = fn name (Some BadFile) None s"
| "walkDir name BadDir fn s =
     (case fn name (Some BadDir) None s of
        (Some err, s1) \<Rightarrow> (Some err, s1)
      | (None, s1) \<Rightarrow> fn name (Some BadDir) (Some (FilesystemError ''readdir'' name)) s1)"
| "walkDir name (Dir es) fn s =
     (case fn name (Some (Dir es)) None s of
        (Some err, s1) \<Rightarrow> (Some err, s1)
      | (None, s1) \<Rightarrow> walkEntries name es fn s1)"
| "walkEntries name [] fn s = (None, s)"
| "walkEntries name ((n, d) # rest) fn s =
     (case walkDir (path_Join name n) d fn s of
        (Some err, s1) \<Rightarrow> (Some err, s1)
      | (None, s1) \<Rightarrow> walkEntries name rest fn s1)"

definition fs_WalkDir :: "filesys \<Rightarrow> string \<Rightarrow> 's WalkDirFunc \<Rightarrow> 's \<Rightarrow> error option \<times> 's" where
  "fs_WalkDir fsys root fn s =
     (case resolve fsys root of
        None \<Rightarrow> fn root None (Some (FilesystemError ''stat'' root)) s
      | Some d \<Rightarrow> walkDir root d fn s)"

section \<open>Values handed to templates\<close>

text \<open>
  The input of a template and the arguments of the function extensions have the Go type
  \<open>any\<close>. The values below are the dynamic types the claims distinguish. Strings are
  sequences of bytes, as in Go.
  \<^item> \<open>GNil\<close> is the nil interface; \<open>GBool\<close>, \<open>GInt\<close> and \<open>GString\<close> are a \<open>bool\<close>, an \<open>int\<close> and a
    \<open>string\<close>.
  \<^item> \<open>GBytes\<close> is a \<open>[]byte\<close> that is not nil, \<open>GSlice\<close> a \<open>[]any\<close> that is not nil and \<open>GMap\<close> a
    \<open>map[string]any\<close> that is not nil, given by its entries in increasing key order, the
    order in which encoding/json visits them. \<open>GNilBytes\<close>, \<open>GNilSlice\<close> and \<open>GNilMap\<close> are
    the nil values of these three types.
  \<^item> \<open>GStringer s u\<close> is a value of another type with a \<open>String\<close> method that returns \<open>s\<close>;
    \<open>u\<close> is the value that encoding/json, which does not look at \<open>String\<close>, serialises in
    its place: the value of the underlying type, or the text marshaller that the type is.
  \<^item> \<open>GTextMarshaler r\<close> is a value of a type with a \<open>MarshalText\<close> method and no \<open>String\<close>
    method; \<open>r\<close> is what \<open>MarshalText()\<close> returns, the message of an error or a text.
  \<^item> \<open>GChan\<close> is a channel, a value that encoding/json cannot serialise.
  Types with a \<open>MarshalJSON\<close> method and floating-point numbers are not among the values.
\<close>

type_synonym byte = "8 word"

datatype gval =
    GNil
  | GBool bool
  | GInt int
  | GString string
  | GBytes "byte list"
  | GNilBytes
  | GStringer string gval
  | GTextMarshaler "string + string"
  | GSlice "gval list"
  | GNilSlice
  | GMap "(string \<times> gval) list"
  | GNilMap
  | GChan

text \<open>The name \<open>%T\<close> prints for the dynamic type of a value.\<close>

fun type_name :: "gval \<Rightarrow> string" where
  "type_name GNil = ''<nil>''"
| "type_name (GBool b) = ''bool''"
| "type_name (GInt i) = ''int''"
| "type_name (GString s) = ''string''"
| "type_name (GBytes bs) = ''[]uint8''"
| "type_name GNilBytes = ''[]uint8''"
| "type_name (GStringer s u) = ''fmt.Stringer''"
| "type_name (GTextMarshaler r) = ''encoding.TextMarshaler''"
| "type_name (GSlice vs) = ''[]interface {}''"
| "type_name GNilSlice = ''[]interface {}''"
| "type_name (GMap kvs) = ''map[string]interface {}''"
| "type_name GNilMap = ''map[string]interface {}''"
| "type_name GChan = ''chan int''"

text \<open>The conversion \<open>[]byte(s)\<close> of a string.\<close>

definition bytes_of :: "string \<Rightarrow> byte list" where
  "bytes_of s = map of_char s"

section \<open>Base64 and JSON of the standard library\<close>

text \<open>
  \<open>base64.StdEncoding.EncodeToString\<close>: three bytes give four characters of the standard
  alphabet; a last group of one or two bytes is padded with \<open>=\<close>. Nothing else is emitted,
  in particular no line break.
\<close>

definition encodeStd :: string where
  "encodeStd = ''ABCDEFGHIJKLMNOPQRSTUVWXYZabcdefghijklmnopqrstuvwxyz0123456789+/''"

definition enc :: "nat \<Rightarrow> char" where
  "enc v = encodeStd ! (v mod 64)"

fun EncodeToString :: "byte list \<Rightarrow> string" where
  "EncodeToString [] = []"
| "EncodeToString [a] =
     (let val = unat a * 65536
      in [enc (val div 262144), enc (val div 4096), CHR ''='', CHR ''=''])"
| "EncodeToString [a, b] =
     (let val = unat a * 65536 + unat b * 256
      in [enc (val div 262144), enc (val div 4096), enc (val div 64), CHR ''=''])"
| "EncodeToString (a # b # c # rest) =
     (let val = unat a * 65536 + unat b * 256 + unat c
      in [enc (val div 262144), enc (val div 4096), enc (val div 64), enc val]
         @ EncodeToString rest)"

text \<open>Decimal digits of a natural number and of an integer, as \<open>strconv\<close> prints them.\<close>

definition digit :: "nat \<Rightarrow> char" where
  "digit d = ''0123456789'' ! (d mod 10)"

function show_nat :: "nat \<Rightarrow> string" where
  "show_nat n = (if n < 10 then [digit n] else show_nat (n div 10) @ [digit n])"
  by pat_completeness auto
termination
  by (relation "measure id") auto

declare show_nat.simps [simp del]

definition show_int :: "int \<Rightarrow> string" where
  "show_int i = (if i < 0 then CHR ''-'' # show_nat (nat (- i)) else show_nat (nat i))"

text \<open>
  A string as \<open>utf8.DecodeRuneInString\<close> reads it from left to right: the well-formed
  sequences, and in between the bytes that begin none (for which the function returns
  \<open>RuneError\<close> with size 1).
\<close>

datatype rune = Rune string | BadByte char

function decode_runes :: "string \<Rightarrow> rune list" where
  "decode_runes [] = []"
| "decode_runes (c # cs) =
     (if rune_len (c # cs) = 0 then BadByte c # decode_runes cs
      else Rune (take (rune_len (c # cs)) (c # cs))
           # decode_runes (drop (rune_len (c # cs)) (c # cs)))"
  by pat_completeness auto
termination
  by (relation "measure length") auto

text \<open>
  The string encoder of encoding/json with HTML escaping, as \<open>json.Marshal\<close> uses it (Go
  1.22 and later; earlier releases write backspace and form feed in the long form, which
  denotes the same characters). Of the bytes below \<open>80\<close>, the quote and the backslash get a backslash,
  backspace, form feed, newline, carriage return and tab their short form, the other
  control characters and \<open><\<close>, \<open>>\<close>, \<open>&\<close> the form \<open>\u00XX\<close>, and the rest is copied. A byte
  that begins no well-formed sequence is written as the escape \<open>\ufffd\<close> (the
  replacement character), the separators U+2028 and U+2029 as escapes too, and every
  other sequence is copied.
\<close>

definition hex :: "nat \<Rightarrow> char" where
  "hex d = ''0123456789abcdef'' ! (d mod 16)"

definition escape_byte :: "char \<Rightarrow> string" where
  "escape_byte c =
     (if c = CHR ''\"'' then [CHR 0x5C, CHR ''\"'']
      else if c = CHR 0x5C then [CHR 0x5C, CHR 0x5C]
      else if c = CHR 0x08 then [CHR 0x5C, CHR ''b'']
      else if c = CHR 0x0C then [CHR 0x5C, CHR ''f'']
      else if c = CHR 0x0A then [CHR 0x5C, CHR ''n'']
      else if c = CHR 0x0D then [CHR 0x5C, CHR ''r'']
      else if c = CHR 0x09 then [CHR 0x5C, CHR ''t'']
      else if (of_char c :: nat) < 32 \<or> c = CHR ''<'' \<or> c = CHR ''>'' \<or> c = CHR ''&''
        then [CHR 0x5C, CHR ''u'', CHR ''0'', CHR ''0'', hex (of_char c div 16), hex (of_char c)]
      else [c])"

definition line_separator :: string where
  "line_separator = [CHR 0xE2, CHR 0x80, CHR 0xA8]"

definition paragraph_separator :: string where
  "paragraph_separator = [CHR 0xE2, CHR 0x80, CHR 0xA9]"

fun encode_rune :: "rune \<Rightarrow> string" where
  "encode_rune (BadByte c) = [CHR 0x5C, CHR ''u'', CHR ''f'', CHR ''f'', CHR ''f'', CHR ''d'']"
| "encode_rune (Rune bs) =
     (case bs of
        [c] \<Rightarrow> escape_byte c
      | _ \<Rightarrow>
          (if bs = line_separator then [CHR 0x5C, CHR ''u'', CHR ''2'', CHR ''0'', CHR ''2'', CHR ''8'']
           else if bs = paragraph_separator then [CHR 0x5C, CHR ''u'', CHR ''2'', CHR ''0'', CHR ''2'', CHR ''9'']
           else bs))"

definition json_string :: "string \<Rightarrow> string" where
  "json_string s = [CHR ''\"''] @ concat (map encode_rune (decode_runes s)) @ [CHR ''\"'']"

text \<open>Elements and members are joined with commas.\<close>

fun commas :: "string list \<Rightarrow> string" where
  "commas [] = []"
| "commas [x] = x"
| "commas (x # y # ys) = x @ '','' @ commas (y # ys)"

text \<open>
  \<open>json.Marshal\<close> on the values above. A nil slice or map is \<open>null\<close>, a byte slice a Base64
  string, a map an object with its keys in increasing order, a text marshaller the string
  of its text. A channel is refused and a failing \<open>MarshalText\<close> is reported; the first such
  value inside a slice or map makes the whole call fail.
\<close>

fun json_Marshal :: "gval \<Rightarrow> error + string"
  and marshal_elems :: "gval list \<Rightarrow> error + string list"
  and marshal_members :: "(string \<times> gval) list \<Rightarrow> error + string list"
where
  "json_Marshal GNil = Inr ''null''"
| "json_Marshal (GBool b) = Inr (if b then ''true'' else ''false'')"
| "json_Marshal (GInt i) = Inr (show_int i)"
| "json_Marshal (GString s) = Inr (json_string s)"
| "json_Marshal (GBytes bs) = Inr ([CHR ''\"''] @ EncodeToString bs @ [CHR ''\"''])"
| "json_Marshal GNilBytes = Inr ''null''"
| "json_Marshal (GStringer s u) = json_Marshal u"
| "json_Marshal (GTextMarshaler r) =
     (case r of
        Inl msg \<Rightarrow> Inl (SerializationError (''json: error calling MarshalText: '' @ msg))
      | Inr text \<Rightarrow> Inr (json_string text))"
| "json_Marshal (GSlice vs) =
     (case marshal_elems vs of
        Inl err \<Rightarrow> Inl err
      | Inr texts \<Rightarrow> Inr (''['' @ commas texts @ '']''))"
| "json_Marshal GNilSlice = Inr ''null''"
| "json_Marshal (GMap kvs) =
     (case marshal_members kvs of
        Inl err \<Rightarrow> Inl err
      | Inr texts \<Rightarrow> Inr (''{'' @ commas texts @ ''}''))"
| "json_Marshal GNilMap = Inr ''null''"
| "json_Marshal GChan = Inl (SerializationError ''json: unsupported type: chan int'')"
| "marshal_elems [] = Inr []"
| "marshal_elems (v # vs) =
     (case json_Marshal v of
        Inl err \<Rightarrow> Inl err
      | Inr text \<Rightarrow>
          (case marshal_elems vs of Inl err \<Rightarrow> Inl err | Inr texts \<Rightarrow> Inr (text # texts)))"
| "marshal_members [] = Inr []"
| "marshal_members ((k, v) # kvs) =
     (case json_Marshal v of
        Inl err \<Rightarrow> Inl err
      | Inr text \<Rightarrow>
          (case marshal_members kvs of
             Inl err \<Rightarrow> Inl err
           | Inr texts \<Rightarrow> Inr ((json_string k @ '':'' @ text) # texts)))"

section \<open>The function extensions base64 and json\<close>

text \<open>
  \<open>base64Func\<close> switches on the dynamic type: \<open>[]byte\<close>, \<open>string\<close>, \<open>fmt.Stringer\<close>, in this
  order; the default case returns the error.
\<close>

fun base64Func :: "gval \<Rightarrow> string outcome" where
  "base64Func (GBytes typed) = Ok (EncodeToString typed)"
| "base64Func GNilBytes = Ok (EncodeToString [])"
| "base64Func (GString typed) = Ok (EncodeToString (bytes_of typed))"
| "base64Func (GStringer typed u) = Ok (EncodeToString (bytes_of typed))"
| "base64Func v = Err (UnsupportedTypeError (type_name v))"

definition jsonFunc :: "gval \<Rightarrow> string outcome" where
  "jsonFunc data =
     (case json_Marshal data of
        Inl err \<Rightarrow> Err err
      | Inr text \<Rightarrow> Ok text)"

section \<open>The template engine\<close>

text \<open>
  The part of text/template that the claims exercise: a parsed unit is a list of text
  nodes and actions, an action is a pipeline of calls of the registered functions, and an
  argument is the dot or a string literal. The three functions registered by \<open>Build\<close> are
  the only ones in scope.
\<close>

datatype fn = Base64 | ExecuteFn | Json

fun fn_name :: "fn \<Rightarrow> string" where
  "fn_name Base64 = ''base64''"
| "fn_name ExecuteFn = ''execute''"
| "fn_name Json = ''json''"

datatype operand = Dot | StringLit string

datatype command = Call fn "operand list"

datatype node = TextNode string | ActionNode "command list"

type_synonym parse_tree = "node list"

type_synonym template_set = "string \<Rightarrow> parse_tree option"

text \<open>The result of the parser on a text: a diagnostic or a tree. The parser is a parameter.\<close>

type_synonym parser = "string \<Rightarrow> string + parse_tree"

text \<open>\<open>parse.IsEmptyTree\<close>: only text nodes of white space.\<close>

definition is_space :: "char \<Rightarrow> bool" where
  "is_space c = (c = CHR '' '' \<or> c = CHR 0x09 \<or> c = CHR 0x0A \<or> c = CHR 0x0B \<or> c = CHR 0x0C
                 \<or> c = CHR 0x0D)"

fun IsEmptyNode :: "node \<Rightarrow> bool" where
  "IsEmptyNode (TextNode text) = list_all is_space text"
| "IsEmptyNode (ActionNode pipe) = False"

definition IsEmptyTree :: "parse_tree \<Rightarrow> bool" where
  "IsEmptyTree nodes = list_all IsEmptyNode nodes"

text \<open>
  \<open>t.template.New(name).Parse(text)\<close>: a parse error carries the name and the diagnostic and
  leaves the set as it was; a tree is associated with the name, except that an empty tree
  does not replace a unit that already has this name. (The texts considered here define no
  further units with \<open>define\<close>.)
\<close>

definition template_Parse :: "parser \<Rightarrow> template_set \<Rightarrow> string \<Rightarrow> string \<Rightarrow> error + template_set" where
  "template_Parse parse ts name text =
     (case parse text of
        Inl diagnostic \<Rightarrow> Inl (TemplateSyntaxError name diagnostic)
      | Inr nodes \<Rightarrow> Inr (if ts name \<noteq> None \<and> IsEmptyTree nodes then ts else ts(name \<mapsto> nodes)))"

definition Lookup :: "template_set \<Rightarrow> string \<Rightarrow> parse_tree option" where
  "Lookup ts name = ts name"

text \<open>
  The parameter types of the registered functions, against which the engine checks the
  arguments before a call: \<open>base64Func(value any)\<close>, \<open>executeFunc(name string, data any)\<close>,
  \<open>jsonFunc(data any)\<close>.
\<close>

datatype ptype = PString | PAny

fun params :: "fn \<Rightarrow> ptype list" where
  "params Base64 = [PAny]"
| "params ExecuteFn = [PString, PAny]"
| "params Json = [PAny]"

fun validateType :: "gval \<Rightarrow> ptype \<Rightarrow> error + gval" where
  "validateType v PAny = Inr v"
| "validateType (GString s) PString = Inr (GString s)"
| "validateType GNil PString = Inl (ExecutionFault ''invalid value; expected string'')"
| "validateType v PString = Inl (ExecutionFault ''wrong type for value; expected string'')"

fun evalArg :: "gval \<Rightarrow> ptype \<Rightarrow> operand \<Rightarrow> error + gval" where
  "evalArg dot typ Dot = validateType dot typ"
| "evalArg dot typ (StringLit s) = Inr (GString s)"

fun evalArgs :: "gval \<Rightarrow> ptype list \<Rightarrow> operand list \<Rightarrow> error + gval list" where
  "evalArgs dot (typ # typs) (arg # args) =
     (case evalArg dot typ arg of
        Inl err \<Rightarrow> Inl err
      | Inr v \<Rightarrow> (case evalArgs dot typs args of Inl err \<Rightarrow> Inl err | Inr vs \<Rightarrow> Inr (v # vs)))"
| "evalArgs dot typs args = Inr []"

text \<open>
  A registered function, as the engine calls it: it may return a text, return an error,
  panic, or not return (\<open>None\<close>).
\<close>

type_synonym func_map = "fn \<Rightarrow> gval list \<Rightarrow> string outcome option"

text \<open>
  \<open>evalCall\<close>: the number of arguments (the value piped in counts as the last one) is
  checked against the parameters, the arguments are evaluated and checked, and the function
  is called through \<open>safeCall\<close>, which turns a panic of the function into an error. An error
  of the call ends the execution with \<open>error calling NAME: ...\<close>.
\<close>

definition evalCall :: "func_map \<Rightarrow> gval \<Rightarrow> fn \<Rightarrow> operand list \<Rightarrow> gval option \<Rightarrow> (error + string) option" where
  "evalCall funcs dot f args final =
     (let numIn = length args + (case final of None \<Rightarrow> 0 | Some v \<Rightarrow> 1)
      in if numIn \<noteq> length (params f) then Some (Inl (ExecutionFault ''wrong number of args''))
         else case evalArgs dot (params f) args of
                Inl err \<Rightarrow> Some (Inl err)
              | Inr argv \<Rightarrow>
                  (case (case final of
                           None \<Rightarrow> Inr argv
                         | Some v \<Rightarrow>
                             (case validateType v (last (params f)) of
                                Inl err \<Rightarrow> Inl err
                              | Inr v1 \<Rightarrow> Inr (argv @ [v1]))) of
                     Inl err \<Rightarrow> Some (Inl err)
                   | Inr argv1 \<Rightarrow>
                       (case funcs f argv1 of
                          None \<Rightarrow> None
                        | Some (Ok text) \<Rightarrow> Some (Inr text)
                        | Some (Err err) \<Rightarrow> Some (Inl (ExecutionError (fn_name f) err))
                        | Some (Panic err) \<Rightarrow> Some (Inl (ExecutionError (fn_name f) err)))))"

text \<open>\<open>evalPipeline\<close>: each command gets the value of the one before it as its last argument.\<close>

fun evalPipeline :: "func_map \<Rightarrow> gval \<Rightarrow> command list \<Rightarrow> string option \<Rightarrow> (error + string option) option" where
  "evalPipeline funcs dot [] val = Some (Inr val)"
| "evalPipeline funcs dot (Call f args # cmds) val =
     (case evalCall funcs dot f args (map_option GString val) of
        None \<Rightarrow> None
      | Some (Inl err) \<Rightarrow> Some (Inl err)
      | Some (Inr text) \<Rightarrow> evalPipeline funcs dot cmds (Some text))"

text \<open>\<open>printValue\<close> of the value of a pipeline: a text is written as it is.\<close>

fun printValue :: "string option \<Rightarrow> string" where
  "printValue None = ''<no value>''"
| "printValue (Some text) = text"

text \<open>
  \<open>state.walk\<close> over the nodes of a unit, writing to the buffer given to \<open>Execute\<close>. The
  result is what the buffer holds when the execution stops and the error that stopped it,
  if any; what was written before an error stays in the buffer.
\<close>

fun walk :: "func_map \<Rightarrow> gval \<Rightarrow> parse_tree \<Rightarrow> string \<Rightarrow> (string \<times> error option) option" where
  "walk funcs dot [] wr = Some (wr, None)"
| "walk funcs dot (TextNode text # nodes) wr = walk funcs dot nodes (wr @ text)"
| "walk funcs dot (ActionNode pipe # nodes) wr =
     (case evalPipeline funcs dot pipe None of
        None \<Rightarrow> None
      | Some (Inl err) \<Rightarrow> Some (wr, Some err)
      | Some (Inr val) \<Rightarrow> walk funcs dot nodes (wr @ printValue val))"

definition template_Execute :: "func_map \<Rightarrow> parse_tree \<Rightarrow> string \<Rightarrow> gval \<Rightarrow> (string \<times> error option) option" where
  "template_Execute funcs nodes wr data = walk funcs data nodes wr"

text \<open>\<open>ExecuteTemplate\<close>: a name with no unit is an error, and nothing is written.\<close>

definition ExecuteTemplate :: "template_set \<Rightarrow> func_map \<Rightarrow> string \<Rightarrow> string \<Rightarrow> gval \<Rightarrow> (string \<times> error option) option" where
  "ExecuteTemplate ts funcs wr name data =
     (case Lookup ts name of
        None \<Rightarrow> Some (wr, Some (TemplateNotFoundError name))
      | Some nodes \<Rightarrow> template_Execute funcs nodes wr data)"

section \<open>Slices in memory\<close>

text \<open>
  The names of a template are a Go slice, and \<open>Names\<close> hands a slice to the caller, who may
  write to it. The backing arrays live in a store; a slice is nil or the address of its
  array. \<open>append\<close> by the only owner of a slice is an update of its array.
\<close>

record store =
  cells :: "nat \<Rightarrow> string list option"
  next_ref :: nat

type_synonym slice = "nat option"

definition elems :: "store \<Rightarrow> slice \<Rightarrow> string list" where
  "elems h sl =
     (case sl of
        None \<Rightarrow> []
      | Some r \<Rightarrow> (case cells h r of None \<Rightarrow> [] | Some xs \<Rightarrow> xs))"

definition alloc :: "string list \<Rightarrow> store \<Rightarrow> slice \<times> store" where
  "alloc xs h = (Some (next_ref h), h\<lparr>cells := (cells h)(next_ref h \<mapsto> xs), next_ref := Suc (next_ref h)\<rparr>)"

definition slice_append :: "slice \<Rightarrow> string \<Rightarrow> store \<Rightarrow> slice \<times> store" where
  "slice_append sl x h =
     (case sl of
        None \<Rightarrow> alloc [x] h
      | Some r \<Rightarrow> (Some r, h\<lparr>cells := (cells h)(r \<mapsto> elems h sl @ [x])\<rparr>))"

text \<open>\<open>slices.Clone\<close>: nil stays nil, anything else is copied into a new array.\<close>

definition slices_Clone :: "slice \<Rightarrow> store \<Rightarrow> slice \<times> store" where
  "slices_Clone sl h =
     (case sl of
        None \<Rightarrow> (None, h)
      | Some r \<Rightarrow> alloc (elems h sl) h)"

text \<open>The assignment \<open>s[i] = v\<close> by a caller: it panics out of range (\<open>None\<close>).\<close>

definition slice_set :: "slice \<Rightarrow> nat \<Rightarrow> string \<Rightarrow> store \<Rightarrow> store option" where
  "slice_set sl i v h =
     (case sl of
        None \<Rightarrow> None
      | Some r \<Rightarrow>
          (if i < length (elems h sl) then Some (h\<lparr>cells := (cells h)(r \<mapsto> (elems h sl)[i := v])\<rparr>)
           else None))"

section \<open>The builder and the template\<close>

record TemplateBuilder =
  b_logger :: Logger
  b_fsys :: "filesys option"
  b_dir :: string

record Template =
  t_logger :: Logger
  t_names :: slice
  t_template :: template_set

definition NewTemplate :: TemplateBuilder where
  "NewTemplate = \<lparr>b_logger = zero_Logger, b_fsys = None, b_dir = []\<rparr>"

definition SetLogger :: "Logger \<Rightarrow> TemplateBuilder \<Rightarrow> TemplateBuilder" where
  "SetLogger val b = b\<lparr>b_logger := val\<rparr>"

definition SetFS :: "filesys option \<Rightarrow> TemplateBuilder \<Rightarrow> TemplateBuilder" where
  "SetFS val b = b\<lparr>b_fsys := val\<rparr>"

definition SetDir :: "string \<Rightarrow> TemplateBuilder \<Rightarrow> TemplateBuilder" where
  "SetDir val b = b\<lparr>b_dir := val\<rparr>"

text \<open>
  \<open>findFiles\<close>: the callback returns the error it is given, skips directories and appends
  the name of every other entry to \<open>t.names\<close>. (\<open>fs.WalkDir\<close> passes a nil entry only
  together with an error; without one, \<open>entry.IsDir()\<close> would dereference nil.)
\<close>

definition findFiles_fn :: "(Template \<times> store) WalkDirFunc" where
  "findFiles_fn name entry err s =
     (case err of
        Some e \<Rightarrow> (Some e, s)
      | None \<Rightarrow>
          (case entry of
             None \<Rightarrow> (Some NilDereference, s)
           | Some d \<Rightarrow>
               (if IsDir d then (None, s)
                else (case slice_append (t_names (fst s)) name (snd s) of
                        (sl, h) \<Rightarrow> (None, ((fst s)\<lparr>t_names := sl\<rparr>, h))))))"

definition findFiles :: "filesys \<Rightarrow> Template \<times> store \<Rightarrow> error option \<times> (Template \<times> store)" where
  "findFiles fsys s = fs_WalkDir fsys ''.'' findFiles_fn s"

text \<open>
  \<open>parseFile\<close> reads the file and parses its text into the shared set, under the name of the
  file. (The message it logs at verbosity 2 goes to the sink of the logger and is not part
  of what the function returns.)
\<close>

definition parseFile :: "parser \<Rightarrow> filesys \<Rightarrow> string \<Rightarrow> Template \<Rightarrow> error option \<times> Template" where
  "parseFile parse fsys name t =
     (case fs_ReadFile fsys name of
        Inl err \<Rightarrow> (Some err, t)
      | Inr text \<Rightarrow>
          (case template_Parse parse (t_template t) name text of
             Inl err \<Rightarrow> (Some err, t)
           | Inr ts \<Rightarrow> (None, t\<lparr>t_template := ts\<rparr>)))"

fun parseFiles_loop :: "parser \<Rightarrow> filesys \<Rightarrow> string list \<Rightarrow> Template \<Rightarrow> error option \<times> Template" where
  "parseFiles_loop parse fsys [] t = (None, t)"
| "parseFiles_loop parse fsys (name # names) t =
     (case parseFile parse fsys name t of
        (Some err, t1) \<Rightarrow> (Some err, t1)
      | (None, t1) \<Rightarrow> parseFiles_loop parse fsys names t1)"

definition parseFiles :: "parser \<Rightarrow> filesys \<Rightarrow> Template \<times> store \<Rightarrow> error option \<times> Template" where
  "parseFiles parse fsys s = parseFiles_loop parse fsys (elems (snd s) (t_names (fst s))) (fst s)"

text \<open>
  \<open>Build\<close>: the two checks of the parameters, the root directory, the new template with
  its empty set of units, then \<open>findFiles\<close> and \<open>parseFiles\<close>.
\<close>

definition Build :: "parser \<Rightarrow> TemplateBuilder \<Rightarrow> store \<Rightarrow> (error + Template) \<times> store" where
  "Build parse b h =
     (if GetSink (b_logger b) = None then (Inl (ConfigurationError ''logger is mandatory''), h)
      else case b_fsys b of
        None \<Rightarrow> (Inl (ConfigurationError ''filesystem is mandatory''), h)
      | Some bfs \<Rightarrow>
          (case (if b_dir b \<noteq> [] then fs_Sub bfs (b_dir b) else Inr bfs) of
             Inl err \<Rightarrow> (Inl err, h)
           | Inr fsys \<Rightarrow>
               (case findFiles fsys (\<lparr>t_logger = b_logger b, t_names = None, t_template = Map.empty\<rparr>, h) of
                  (Some err, (t1, h1)) \<Rightarrow> (Inl err, h1)
                | (None, (t1, h1)) \<Rightarrow>
                    (case parseFiles parse fsys (t1, h1) of
                       (Some err, t2) \<Rightarrow> (Inl err, h1)
                     | (None, t2) \<Rightarrow> (Inr t2, h1)))))"

text \<open>\<open>Names\<close> returns a clone of \<open>t.names\<close>.\<close>

definition Names :: "Template \<Rightarrow> store \<Rightarrow> slice \<times> store" where
  "Names t h = slices_Clone (t_names t) h"

section \<open>Execution\<close>

text \<open>
  \<open>executeFunc\<close> looks the unit up and executes it into a buffer of its own. It does not
  check the result of \<open>Lookup\<close>: for a name with no unit, \<open>executed\<close> is nil and
  \<open>executed.Execute\<close> dereferences it, which panics. A unit may execute itself without end,
  so the number of nested calls is bounded by the first argument; \<open>None\<close> says that the bound
  was reached.
\<close>

definition FuncMap :: "(string \<Rightarrow> gval \<Rightarrow> string outcome option) \<Rightarrow> func_map" where
  "FuncMap exe f argv =
     (case (f, argv) of
        (Base64, [v]) \<Rightarrow> Some (base64Func v)
      | (ExecuteFn, [GString name, data]) \<Rightarrow> exe name data
      | (Json, [data]) \<Rightarrow> Some (jsonFunc data)
      | _ \<Rightarrow> Some (Panic (ExecutionFault ''reflect: Call with wrong arguments'')))"

primrec executeFunc :: "nat \<Rightarrow> Template \<Rightarrow> string \<Rightarrow> gval \<Rightarrow> string outcome option" where
  "executeFunc 0 t name data =
     (case Lookup (t_template t) name of
        None \<Rightarrow> Some (Panic NilDereference)
      | Some executed \<Rightarrow> None)"
| "executeFunc (Suc n) t name data =
     (case Lookup (t_template t) name of
        None \<Rightarrow> Some (Panic NilDereference)
      | Some executed \<Rightarrow>
          (case template_Execute (FuncMap (executeFunc n t)) executed [] data of
             None \<Rightarrow> None
           | Some (buffer, Some err) \<Rightarrow> Some (Err err)
           | Some (buffer, None) \<Rightarrow> Some (Ok buffer)))"

text \<open>
  The destination of \<open>Execute\<close> is an \<open>io.Writer\<close>: its \<open>Write\<close> takes the bytes and returns
  how many it accepted and an error, changing the destination. \<open>bytes.Buffer.WriteTo\<close> calls
  it once, and only for a buffer that is not empty; it panics on a count larger than the
  buffer and reports a short count without error as \<open>io.ErrShortWrite\<close>.
\<close>

type_synonym 'w Writer = "string \<Rightarrow> 'w \<Rightarrow> (nat \<times> error option) \<times> 'w"

definition Buffer_WriteTo :: "string \<Rightarrow> 'w Writer \<Rightarrow> 'w \<Rightarrow> unit outcome \<times> 'w" where
  "Buffer_WriteTo buffer Write w =
     (if 0 < length buffer
      then (case Write buffer w of
              ((m, e), w1) \<Rightarrow>
                (if length buffer < m then (Panic (WriteError ''bytes.Buffer.WriteTo: invalid Write count''), w1)
                 else case e of
                        Some err \<Rightarrow> (Err err, w1)
                      | None \<Rightarrow> (if m \<noteq> length buffer then (Err ErrShortWrite, w1) else (Ok (), w1))))
      else (Ok (), w))"

text \<open>
  \<open>Execute\<close> renders into a new buffer, returns the error of the rendering if there is one,
  and only then writes the buffer to the destination. (The message it logs at verbosity 2
  goes to the sink of the logger.) The first argument bounds the nesting of \<open>execute\<close>
  calls of the units, as for \<open>executeFunc\<close>.
\<close>

definition Execute :: "nat \<Rightarrow> Template \<Rightarrow> 'w Writer \<Rightarrow> 'w \<Rightarrow> string \<Rightarrow> gval \<Rightarrow> (unit outcome \<times> 'w) option" where
  "Execute fuel t Write w name data =
     (case ExecuteTemplate (t_template t) (FuncMap (executeFunc fuel t)) [] name data of
        None \<Rightarrow> None
      | Some (buffer, Some err) \<Rightarrow> Some (Err err, w)
      | Some (buffer, None) \<Rightarrow> Some (Buffer_WriteTo buffer Write w))"

text \<open>
  A destination for examples: it keeps what it received and, when \<open>room\<close> is set, accepts
  only that many more bytes, failing on the write that does not fit (a full disk, a closed
  connection).
\<close>

record dest =
  received :: string
  room :: "nat option"

definition dest_Write :: "dest Writer" where
  "dest_Write p w =
     (case room w of
        None \<Rightarrow> ((length p, None), w\<lparr>received := received w @ p\<rparr>)
      | Some k \<Rightarrow>
          (if length p \<le> k then ((length p, None), w\<lparr>received := received w @ p, room := Some (k - length p)\<rparr>)
           else ((k, Some (WriteError ''no space left'')), w\<lparr>received := received w @ take k p, room := Some 0\<rparr>)))"

section \<open>What the claims say about Base64\<close>

text \<open>
  The decoder of the standard encoding (RFC 4648): four characters of the alphabet give
  three bytes, and a last group ends with one or two \<open>=\<close> for two or one bytes. It is the
  yardstick for the encoder above.
\<close>

definition decode_char :: "char \<Rightarrow> nat option" where
  "decode_char c = map_of (zip encodeStd [0..<64]) c"

fun DecodeString :: "string \<Rightarrow> byte list option" where
  "DecodeString [] = Some []"
| "DecodeString (c1 # c2 # c3 # c4 # rest) =
     (case (decode_char c1, decode_char c2) of
        (Some s1, Some s2) \<Rightarrow>
          (if c3 = CHR ''=''
           then (if c4 = CHR ''='' \<and> rest = [] then Some [of_nat (s1 * 4 + s2 div 16)] else None)
           else (case decode_char c3 of
                   None \<Rightarrow> None
                 | Some s3 \<Rightarrow>
                     (if c4 = CHR ''=''
                      then (if rest = []
                            then Some [of_nat (s1 * 4 + s2 div 16), of_nat (s2 * 16 + s3 div 4)]
                            else None)
                      else (case decode_char c4 of
                              None \<Rightarrow> None
                            | Some s4 \<Rightarrow>
                                map_option
                                  (\<lambda>bs. of_nat (s1 * 4 + s2 div 16) # of_nat (s2 * 16 + s3 div 4)
                                        # of_nat (s3 * 64 + s4) # bs)
                                  (DecodeString rest)))))
      | _ \<Rightarrow> None)"
| "DecodeString cs = None"

section \<open>What the claims say about JSON\<close>

text \<open>
  The values of JSON (RFC 8259), with integers for numbers: what a JSON text denotes. A
  string is the sequence of the bytes of its UTF-8 encoding.
\<close>

datatype jvalue =
    JNull
  | JBool bool
  | JNumber int
  | JString string
  | JArray "jvalue list"
  | JObject "(string \<times> jvalue) list"

text \<open>
  The JSON value of a value handed to \<open>json\<close>, as the documentation of encoding/json gives
  it, and \<open>None\<close> when there is none. A string is a JSON string; a byte of it that begins
  no well-formed UTF-8 sequence stands for the replacement character U+FFFD, so a string
  of well-formed UTF-8 is the JSON string with the same bytes. A byte slice is the string
  of its Base64 encoding, a text marshaller the string of its text, a nil slice or map
  \<open>null\<close>, a slice an array and a map an object with the members in the order of the keys.
  A channel has no JSON value, nor has a text marshaller whose method fails, nor a slice or
  map that holds one of the two.
\<close>

definition replacement :: string where
  "replacement = [CHR 0xEF, CHR 0xBF, CHR 0xBD]"

fun rune_bytes :: "rune \<Rightarrow> string" where
  "rune_bytes (Rune bs) = bs"
| "rune_bytes (BadByte c) = replacement"

definition sanitized :: "string \<Rightarrow> string" where
  "sanitized s = concat (map rune_bytes (decode_runes s))"

fun to_json :: "gval \<Rightarrow> jvalue option"
  and to_json_elems :: "gval list \<Rightarrow> jvalue list option"
  and to_json_members :: "(string \<times> gval) list \<Rightarrow> (string \<times> jvalue) list option"
where
  "to_json GNil = Some JNull"
| "to_json (GBool b) = Some (JBool b)"
| "to_json (GInt i) = Some (JNumber i)"
| "to_json (GString s) = Some (JString (sanitized s))"
| "to_json (GBytes bs) = Some (JString (EncodeToString bs))"
| "to_json GNilBytes = Some JNull"
| "to_json (GStringer s u) = to_json u"
| "to_json (GTextMarshaler r) = (case r of Inl msg \<Rightarrow> None | Inr body \<Rightarrow> Some (JString (sanitized body)))"
| "to_json (GSlice vs) = map_option JArray (to_json_elems vs)"
| "to_json GNilSlice = Some JNull"
| "to_json (GMap kvs) = map_option JObject (to_json_members kvs)"
| "to_json GNilMap = Some JNull"
| "to_json GChan = None"
| "to_json_elems [] = Some []"
| "to_json_elems (v # vs) =
     (case to_json v of
        None \<Rightarrow> None
      | Some j \<Rightarrow> (case to_json_elems vs of None \<Rightarrow> None | Some js \<Rightarrow> Some (j # js)))"
| "to_json_members [] = Some []"
| "to_json_members ((k, v) # kvs) =
     (case to_json v of
        None \<Rightarrow> None
      | Some j \<Rightarrow>
          (case to_json_members kvs of
             None \<Rightarrow> None
           | Some kjs \<Rightarrow> Some ((sanitized k, j) # kjs)))"

text \<open>
  The JSON texts of RFC 8259 without the optional white space, each with the value it
  denotes. Between the quotes of a string stand well-formed UTF-8 sequences other than the
  control characters, the quote and the backslash, which denote themselves, the two-character
  escapes, and the escapes of four hexadecimal digits, which denote the UTF-8 encoding of
  the code point (an escape of a surrogate is left out: it denotes no code point on its
  own). No other byte may stand there; in particular a byte that is not part of a
  well-formed sequence may not.
\<close>

definition valid_rune :: "string \<Rightarrow> bool" where
  "valid_rune bs = (bs \<noteq> [] \<and> rune_len bs = length bs)"

fun plain_rune :: "string \<Rightarrow> bool" where
  "plain_rune [c] = (32 \<le> (of_char c :: nat) \<and> c \<noteq> CHR ''\"'' \<and> c \<noteq> CHR 0x5C)"
| "plain_rune bs = True"

definition short_escapes :: "(char \<times> char) list" where
  "short_escapes =
     [(CHR ''\"'', CHR ''\"''), (CHR 0x5C, CHR 0x5C), (CHR ''/'', CHR ''/''), (CHR ''b'', CHR 0x08),
      (CHR ''f'', CHR 0x0C), (CHR ''n'', CHR 0x0A), (CHR ''r'', CHR 0x0D), (CHR ''t'', CHR 0x09)]"

definition decdigit :: "char \<Rightarrow> bool" where
  "decdigit c = (c \<in> set ''0123456789'')"

definition hexdigit :: "char \<Rightarrow> bool" where
  "hexdigit c = (c \<in> set ''0123456789abcdefABCDEF'')"

definition hexdigit_value :: "char \<Rightarrow> nat" where
  "hexdigit_value c =
     (if decdigit c then of_char c - 48
      else if c \<in> set ''abcdef'' then of_char c - 87
      else of_char c - 55)"

definition hex_value :: "string \<Rightarrow> nat" where
  "hex_value cs = foldl (\<lambda>a c. a * 16 + hexdigit_value c) 0 cs"

definition dec_value :: "string \<Rightarrow> nat" where
  "dec_value ds = foldl (\<lambda>a c. a * 10 + (of_char c - 48)) 0 ds"

definition utf8_encode :: "nat \<Rightarrow> string" where
  "utf8_encode cp =
     (if cp < 0x80 then [char_of cp]
      else if cp < 0x800 then [char_of (0xC0 + cp div 64), char_of (0x80 + cp mod 64)]
      else [char_of (0xE0 + cp div 4096), char_of (0x80 + cp div 64 mod 64), char_of (0x80 + cp mod 64)])"

inductive json_chars :: "string \<Rightarrow> string \<Rightarrow> bool" where
  chars_end: "json_chars [] []"
| chars_rune: "valid_rune bs \<Longrightarrow> plain_rune bs \<Longrightarrow> json_chars cs s \<Longrightarrow> json_chars (bs @ cs) (bs @ s)"
| chars_escape: "(e, c) \<in> set short_escapes \<Longrightarrow> json_chars cs s
     \<Longrightarrow> json_chars (CHR 0x5C # e # cs) (c # s)"
| chars_unicode: "hexdigit a \<Longrightarrow> hexdigit b \<Longrightarrow> hexdigit c \<Longrightarrow> hexdigit d
     \<Longrightarrow> hex_value [a, b, c, d] < 0xD800 \<or> 0xDFFF < hex_value [a, b, c, d]
     \<Longrightarrow> json_chars cs s
     \<Longrightarrow> json_chars (CHR 0x5C # CHR ''u'' # a # b # c # d # cs) (utf8_encode (hex_value [a, b, c, d]) @ s)"

text \<open>
  A number is a sequence of decimal digits without a leading zero, with an optional minus
  sign. An array and an object list their elements and members between commas; the name
  of a member is a string.
\<close>

definition json_int :: "string \<Rightarrow> bool" where
  "json_int ds = (ds \<noteq> [] \<and> list_all decdigit ds \<and> (hd ds = CHR ''0'' \<longrightarrow> ds = ''0''))"

inductive json_value :: "string \<Rightarrow> jvalue \<Rightarrow> bool"
  and json_elems :: "string list \<Rightarrow> jvalue list \<Rightarrow> bool"
  and json_members :: "string list \<Rightarrow> (string \<times> jvalue) list \<Rightarrow> bool"
where
  value_null: "json_value ''null'' JNull"
| value_true: "json_value ''true'' (JBool True)"
| value_false: "json_value ''false'' (JBool False)"
| value_number: "json_int ds \<Longrightarrow> json_value ds (JNumber (int (dec_value ds)))"
| value_negative: "json_int ds \<Longrightarrow> json_value (CHR ''-'' # ds) (JNumber (- int (dec_value ds)))"
| value_string: "json_chars cs s \<Longrightarrow> json_value ([CHR ''\"''] @ cs @ [CHR ''\"'']) (JString s)"
| value_array: "json_elems xs js \<Longrightarrow> json_value (''['' @ commas xs @ '']'') (JArray js)"
| value_object: "json_members ms kjs \<Longrightarrow> json_value (''{'' @ commas ms @ ''}'') (JObject kjs)"
| elems_end: "json_elems [] []"
| elems_next: "json_value x j \<Longrightarrow> json_elems xs js \<Longrightarrow> json_elems (x # xs) (j # js)"
| members_end: "json_members [] []"
| members_next: "json_chars kc k \<Longrightarrow> json_value x j \<Longrightarrow> json_members ms kjs
     \<Longrightarrow> json_members (([CHR ''\"''] @ kc @ [CHR ''\"''] @ '':'' @ x) # ms) ((k, j) # kjs)"

section \<open>What the claims say about the source tree\<close>

text \<open>
  A well-formed tree: the entries of every directory have distinct names, and every name
  is a valid path element (not empty, not \<open>''.''\<close> or \<open>''..''\<close>, without slash), as \<open>fs.ReadDir\<close>
  promises.
\<close>

fun wf_node :: "fsnode \<Rightarrow> bool"
  and wf_entries :: "(string \<times> fsnode) list \<Rightarrow> bool"
where
  "wf_node (Dir es) = (distinct (map fst es) \<and> wf_entries es)"
| "wf_node (File body) = True"
| "wf_node BadFile = True"
| "wf_node BadDir = True"
| "wf_entries [] = True"
| "wf_entries ((n, d) # es) = (valid_element n \<and> wf_node d \<and> wf_entries es)"

text \<open>The relative path with the given elements; the root is \<open>''.''\<close>.\<close>

fun rel_path :: "string list \<Rightarrow> string" where
  "rel_path [] = ''.''"
| "rel_path (e # es) = e @ concat (map (\<lambda>n. CHR ''/'' # n) es)"

text \<open>
  The entries below a node that are not directories, each by the elements of its path from
  the node, in the order of the directory listings, depth first.
\<close>

fun paths_under :: "fsnode \<Rightarrow> string list list"
  and paths_entries :: "(string \<times> fsnode) list \<Rightarrow> string list list"
where
  "paths_under (File body) = [[]]"
| "paths_under BadFile = [[]]"
| "paths_under BadDir = []"
| "paths_under (Dir es) = paths_entries es"
| "paths_entries [] = []"
| "paths_entries ((n, d) # es) = map (\<lambda>q. n # q) (paths_under d) @ paths_entries es"

section \<open>The checks of the builder\<close>

text \<open>
  Claim C5. A builder whose logger or filesystem was never set makes \<open>Build\<close> return a
  configuration error. Both checks come before any other work: the store comes back as it
  was (no name was recorded), and with a missing logger the result is the same for every
  filesystem, directory and parser, so the source is not looked at.
\<close>

theorem Build_checks_parameters_first:
  assumes "GetSink (b_logger b) = None \<or> b_fsys b = None"
  shows "Build parse b h =
           (Inl (ConfigurationError (if GetSink (b_logger b) = None then ''logger is mandatory''
                                     else ''filesystem is mandatory'')), h)
       \<and> (GetSink (b_logger b) = None \<longrightarrow>
            Build parse b h = Build parse1 (b\<lparr>b_fsys := fsys1, b_dir := dir1\<rparr>) h)"
  using assms by (auto simp: Build_def)

theorem Build_checks_parameters_first_witness:
  "(GetSink (b_logger (SetLogger \<lparr>sink = Some \<lparr>verbosity = 2\<rparr>, level = 0\<rparr> NewTemplate)) = None
      \<or> b_fsys (SetLogger \<lparr>sink = Some \<lparr>verbosity = 2\<rparr>, level = 0\<rparr> NewTemplate) = None)
   \<and> Build (\<lambda>text. Inr [TextNode text]) (SetLogger \<lparr>sink = Some \<lparr>verbosity = 2\<rparr>, level = 0\<rparr> NewTemplate)
        \<lparr>cells = Map.empty, next_ref = 0\<rparr>
       = (Inl (ConfigurationError ''filesystem is mandatory''), \<lparr>cells = Map.empty, next_ref = 0\<rparr>)"
proof -
  have h: "GetSink (b_logger (SetLogger \<lparr>sink = Some \<lparr>verbosity = 2\<rparr>, level = 0\<rparr> NewTemplate)) = None
      \<or> b_fsys (SetLogger \<lparr>sink = Some \<lparr>verbosity = 2\<rparr>, level = 0\<rparr> NewTemplate) = None"
    by (simp add: SetLogger_def NewTemplate_def)
  show ?thesis
    using h Build_checks_parameters_first [OF h, of "\<lambda>text. Inr [TextNode text]" "\<lparr>cells = Map.empty, next_ref = 0\<rparr>"]
    by (simp add: SetLogger_def NewTemplate_def GetSink_def)
qed

text \<open>
  Claim C10. \<open>Build\<close> tests the sink of the logger, not whether \<open>SetLogger\<close> was called: after
  \<open>SetLogger\<close> with a logger whose sink is nil (the zero value is one), \<open>Build\<close> fails with
  the configuration error of the missing logger, exactly as it does for the builder whose
  logger is still the one \<open>NewTemplate\<close> left there.
\<close>

theorem Build_nil_sink_logger:
  assumes "sink lg = None"
  shows "Build parse (SetLogger lg b) h = (Inl (ConfigurationError ''logger is mandatory''), h)
       \<and> Build parse (SetLogger lg b) h = Build parse (b\<lparr>b_logger := b_logger NewTemplate\<rparr>) h"
  using assms by (simp add: Build_def SetLogger_def GetSink_def NewTemplate_def zero_Logger_def)

theorem Build_nil_sink_logger_witness:
  "sink zero_Logger = None
   \<and> Build (\<lambda>text. Inr [TextNode text])
        (SetLogger zero_Logger (SetFS (Some \<lparr>tree = Dir [(''a.tmpl'', File ''A'')], base = []\<rparr>) NewTemplate))
        \<lparr>cells = Map.empty, next_ref = 0\<rparr>
       = (Inl (ConfigurationError ''logger is mandatory''), \<lparr>cells = Map.empty, next_ref = 0\<rparr>)"
proof -
  have h: "sink zero_Logger = None" by (simp add: zero_Logger_def)
  show ?thesis
    using h Build_nil_sink_logger [OF h] by simp
qed

section \<open>The bound on nested executions\<close>

text \<open>
  A larger bound changes nothing once a result is there: whatever a function, a pipeline,
  a unit or \<open>Execute\<close> returns within some bound, it returns within every larger one.
\<close>

lemma evalCall_mono:
  assumes "\<And>f argv. funcs f argv = None \<or> funcs f argv = funcs1 f argv"
  shows "evalCall funcs dot f args final = None
       \<or> evalCall funcs dot f args final = evalCall funcs1 dot f args final"
proof (cases "length args + (case final of None \<Rightarrow> 0 | Some v \<Rightarrow> 1) \<noteq> length (params f)")
  case True
  then show ?thesis by (simp add: evalCall_def)
next
  case count: False
  show ?thesis
  proof (cases "evalArgs dot (params f) args")
    case (Inl err)
    with count show ?thesis by (simp add: evalCall_def)
  next
    case (Inr argv)
    show ?thesis
    proof (cases "case final of None \<Rightarrow> Inr argv
                  | Some v \<Rightarrow> (case validateType v (last (params f)) of
                                Inl err \<Rightarrow> Inl err | Inr v1 \<Rightarrow> Inr (argv @ [v1]))")
      case (Inl err)
      with count Inr show ?thesis by (simp add: evalCall_def)
    next
      case argv1: (Inr argv1)
      from assms [of f argv1] show ?thesis
      proof
        assume "funcs f argv1 = None"
        with count Inr argv1 show ?thesis by (simp add: evalCall_def)
      next
        assume "funcs f argv1 = funcs1 f argv1"
        with count Inr argv1 show ?thesis by (simp add: evalCall_def)
      qed
    qed
  qed
qed

lemma evalPipeline_mono:
  assumes "\<And>f argv. funcs f argv = None \<or> funcs f argv = funcs1 f argv"
  shows "evalPipeline funcs dot cmds val = None
       \<or> evalPipeline funcs dot cmds val = evalPipeline funcs1 dot cmds val"
proof (induction cmds arbitrary: val)
  case Nil
  then show ?case by simp
next
  case (Cons cmd cmds)
  obtain f args where cmd: "cmd = Call f args" by (cases cmd)
  have "evalCall funcs dot f args (map_option GString val) = None
      \<or> evalCall funcs dot f args (map_option GString val) = evalCall funcs1 dot f args (map_option GString val)"
    by (rule evalCall_mono) (rule assms)
  then consider "evalCall funcs dot f args (map_option GString val) = None"
    | "evalCall funcs dot f args (map_option GString val) = evalCall funcs1 dot f args (map_option GString val)"
    by (elim disjE) simp_all
  then show ?case
  proof cases
    case 1
    with cmd show ?thesis by simp
  next
    case 2
    show ?thesis
    proof (cases "evalCall funcs1 dot f args (map_option GString val)")
      case None
      with 2 cmd show ?thesis by simp
    next
      case (Some r)
      with 2 cmd Cons.IH show ?thesis by (cases r) simp_all
    qed
  qed
qed

lemma walk_mono:
  assumes "\<And>f argv. funcs f argv = None \<or> funcs f argv = funcs1 f argv"
  shows "walk funcs dot nodes wr = None \<or> walk funcs dot nodes wr = walk funcs1 dot nodes wr"
proof (induction nodes arbitrary: wr)
  case Nil
  then show ?case by simp
next
  case (Cons node nodes)
  show ?case
  proof (cases node)
    case (TextNode body)
    with Cons.IH show ?thesis by simp
  next
    case (ActionNode pipe)
    have "evalPipeline funcs dot pipe None = None
        \<or> evalPipeline funcs dot pipe None = evalPipeline funcs1 dot pipe None"
      by (rule evalPipeline_mono) (rule assms)
    then consider "evalPipeline funcs dot pipe None = None"
      | "evalPipeline funcs dot pipe None = evalPipeline funcs1 dot pipe None"
      by (elim disjE) simp_all
    then show ?thesis
    proof cases
      case 1
      with ActionNode show ?thesis by simp
    next
      case 2
      show ?thesis
      proof (cases "evalPipeline funcs1 dot pipe None")
        case None
        with 2 ActionNode show ?thesis by simp
      next
        case (Some r)
        with 2 ActionNode Cons.IH show ?thesis by (cases r) simp_all
      qed
    qed
  qed
qed

lemma FuncMap_mono:
  assumes "\<And>name data. exe name data = None \<or> exe name data = exe1 name data"
  shows "FuncMap exe f argv = None \<or> FuncMap exe f argv = FuncMap exe1 f argv"
proof (cases "\<exists>name data. f = ExecuteFn \<and> argv = [GString name, data]")
  case True
  then obtain name data where "f = ExecuteFn" "argv = [GString name, data]" by blast
  with assms [of name data] show ?thesis by (simp add: FuncMap_def)
next
  case False
  then have "FuncMap exe f argv = FuncMap exe1 f argv"
    by (auto simp: FuncMap_def split: fn.splits list.splits gval.splits)
  then show ?thesis by simp
qed

lemma executeFunc_mono:
  "executeFunc n t name data = None \<or> executeFunc n t name data = executeFunc (Suc n) t name data"
proof (induction n arbitrary: name data)
  case 0
  then show ?case by (simp split: option.splits)
next
  case (Suc n)
  show ?case
  proof (cases "Lookup (t_template t) name")
    case None
    then show ?thesis by simp
  next
    case (Some executed)
    have fm: "FuncMap (executeFunc n t) f argv = None
        \<or> FuncMap (executeFunc n t) f argv = FuncMap (executeFunc (Suc n) t) f argv" for f argv
      by (rule FuncMap_mono) (rule Suc.IH)
    have "walk (FuncMap (executeFunc n t)) data executed [] = None
        \<or> walk (FuncMap (executeFunc n t)) data executed []
            = walk (FuncMap (executeFunc (Suc n) t)) data executed []"
      by (rule walk_mono) (rule fm)
    then consider "template_Execute (FuncMap (executeFunc n t)) executed [] data = None"
      | "template_Execute (FuncMap (executeFunc n t)) executed [] data
           = template_Execute (FuncMap (executeFunc (Suc n) t)) executed [] data"
      unfolding template_Execute_def by (elim disjE) simp_all
    then show ?thesis
    proof cases
      case 1
      with Some show ?thesis by simp
    next
      case 2
      with Some show ?thesis by simp
    qed
  qed
qed

lemma Execute_mono:
  "Execute n t Write w name data = Some r \<Longrightarrow> Execute (Suc n) t Write w name data = Some r"
proof -
  assume a: "Execute n t Write w name data = Some r"
  show ?thesis
  proof (cases "Lookup (t_template t) name")
    case None
    with a show ?thesis by (simp add: Execute_def ExecuteTemplate_def)
  next
    case (Some nodes)
    have fm: "FuncMap (executeFunc n t) f argv = None
        \<or> FuncMap (executeFunc n t) f argv = FuncMap (executeFunc (Suc n) t) f argv" for f argv
      by (rule FuncMap_mono) (rule executeFunc_mono)
    have "walk (FuncMap (executeFunc n t)) data nodes [] = None
        \<or> walk (FuncMap (executeFunc n t)) data nodes [] = walk (FuncMap (executeFunc (Suc n) t)) data nodes []"
      by (rule walk_mono) (rule fm)
    with a Some show ?thesis
      by (auto simp: Execute_def ExecuteTemplate_def template_Execute_def)
  qed
qed

section \<open>Execution of a name without unit\<close>

text \<open>
  Claim C1. For every template and every name that has no unit in its set, \<open>Execute\<close>
  returns the error that names the missing template, and the destination is left as it
  was: its \<open>Write\<close> is not applied, whatever it would do.
\<close>

theorem Execute_unknown_name:
  assumes "Lookup (t_template t) name = None"
  shows "Execute fuel t Write w name data = Some (Err (TemplateNotFoundError name), w)"
  using assms by (simp add: Execute_def ExecuteTemplate_def)

theorem Execute_unknown_name_witness:
  "Lookup (t_template \<lparr>t_logger = zero_Logger, t_names = None, t_template = [''a.tmpl'' \<mapsto> [TextNode ''A'']]\<rparr>) ''b.tmpl'' = None
   \<and> Execute 0 \<lparr>t_logger = zero_Logger, t_names = None, t_template = [''a.tmpl'' \<mapsto> [TextNode ''A'']]\<rparr>
        dest_Write \<lparr>received = [], room = None\<rparr> ''b.tmpl'' GNil
       = Some (Err (TemplateNotFoundError ''b.tmpl''), \<lparr>received = [], room = None\<rparr>)"
proof -
  have h: "Lookup (t_template \<lparr>t_logger = zero_Logger, t_names = None, t_template = [''a.tmpl'' \<mapsto> [TextNode ''A'']]\<rparr>) ''b.tmpl'' = None"
    by (simp add: Lookup_def)
  show ?thesis
    using h Execute_unknown_name [OF h] by simp
qed

section \<open>The execute function on a name without unit\<close>

text \<open>
  Claim C2. The claim asks for the lookup-miss error when \<open>execute\<close> is given a name that
  has no unit. The code does something else there: \<open>executeFunc\<close> panics with a nil
  dereference, for every template, name, input and bound (first part). The engine recovers
  the panic of a function it calls, so the caller of \<open>Execute\<close> gets an execution error
  that wraps the runtime error and does not name the missing unit. When the name has a
  unit, an error of the nested execution is returned as it is (second part).
\<close>

theorem executeFunc_unknown_name_panics:
  "(Lookup (t_template t) name = None \<longrightarrow> executeFunc fuel t name data = Some (Panic NilDereference))
   \<and> (Lookup (t_template t) name = Some executed
        \<and> template_Execute (FuncMap (executeFunc fuel t)) executed [] data = Some (buffer, Some err)
       \<longrightarrow> executeFunc (Suc fuel) t name data = Some (Err err))"
  by (cases fuel) simp_all

theorem executeFunc_unknown_name_panics_witness:
  "Lookup (t_template \<lparr>t_logger = zero_Logger, t_names = None,
             t_template = [''outer.tmpl'' \<mapsto> [ActionNode [Call ExecuteFn [StringLit ''missing.tmpl'', Dot]]]]\<rparr>)
      ''missing.tmpl'' = None
   \<and> executeFunc 1 \<lparr>t_logger = zero_Logger, t_names = None,
        t_template = [''outer.tmpl'' \<mapsto> [ActionNode [Call ExecuteFn [StringLit ''missing.tmpl'', Dot]]]]\<rparr>
        ''missing.tmpl'' GNil = Some (Panic NilDereference)
   \<and> Execute 1 \<lparr>t_logger = zero_Logger, t_names = None,
        t_template = [''outer.tmpl'' \<mapsto> [ActionNode [Call ExecuteFn [StringLit ''missing.tmpl'', Dot]]]]\<rparr>
        dest_Write \<lparr>received = [], room = None\<rparr> ''outer.tmpl'' GNil
       = Some (Err (ExecutionError ''execute'' NilDereference), \<lparr>received = [], room = None\<rparr>)"
proof -
  let ?t = "\<lparr>t_logger = zero_Logger, t_names = None,
             t_template = [''outer.tmpl'' \<mapsto> [ActionNode [Call ExecuteFn [StringLit ''missing.tmpl'', Dot]]]]\<rparr>"
  have h: "Lookup (t_template ?t) ''missing.tmpl'' = None"
    by (simp add: Lookup_def)
  have p: "executeFunc fuel ?t ''missing.tmpl'' GNil = Some (Panic NilDereference)" for fuel
    using h executeFunc_unknown_name_panics [of ?t "''missing.tmpl''" fuel GNil] by blast
  have "Execute 1 ?t dest_Write \<lparr>received = [], room = None\<rparr> ''outer.tmpl'' GNil
       = Some (Err (ExecutionError ''execute'' NilDereference), \<lparr>received = [], room = None\<rparr>)"
    by (simp add: Execute_def ExecuteTemplate_def Lookup_def template_Execute_def evalCall_def FuncMap_def)
  with h p [of 1] show ?thesis by blast
qed

section \<open>Rendering into a buffer\<close>

lemma Buffer_WriteTo_empty: "Buffer_WriteTo [] Write w = (Ok (), w)"
  by (simp add: Buffer_WriteTo_def)

lemma Buffer_WriteTo_nonempty:
  assumes "buffer \<noteq> []"
  shows "snd (Buffer_WriteTo buffer Write w) = snd (Write buffer w)"
    and "fst (Buffer_WriteTo buffer Write w) = Ok () \<longleftrightarrow> fst (Write buffer w) = (length buffer, None)"
  using assms
  by (cases "Write buffer w"; cases "fst (Write buffer w)"; cases "snd (fst (Write buffer w))";
      simp add: Buffer_WriteTo_def)+

text \<open>
  Claim C3, as it is stated, fails for a destination that does not take all of the output.
  \<open>Build\<close> returns the template below for a source with the one file \<open>a.tmpl\<close>; the
  rendering of that unit succeeds with \<open>hello\<close>, the destination has room for three bytes,
  and it ends with \<open>hel\<close>, which is neither the full output nor nothing.
\<close>

theorem Execute_truncated_counterexample:
  "Build (\<lambda>body. Inr [TextNode body])
     \<lparr>b_logger = \<lparr>sink = Some \<lparr>verbosity = 0\<rparr>, level = 0\<rparr>,
        b_fsys = Some \<lparr>tree = Dir [(''a.tmpl'', File ''hello'')], base = []\<rparr>, b_dir = []\<rparr>
     \<lparr>cells = Map.empty, next_ref = 0\<rparr>
     = (Inr \<lparr>t_logger = \<lparr>sink = Some \<lparr>verbosity = 0\<rparr>, level = 0\<rparr>, t_names = Some 0,
             t_template = [''a.tmpl'' \<mapsto> [TextNode ''hello'']]\<rparr>,
        \<lparr>cells = [0 \<mapsto> [''a.tmpl'']], next_ref = 1\<rparr>)
   \<and> ExecuteTemplate [''a.tmpl'' \<mapsto> [TextNode ''hello'']]
        (FuncMap (executeFunc 0 \<lparr>t_logger = \<lparr>sink = Some \<lparr>verbosity = 0\<rparr>, level = 0\<rparr>, t_names = Some 0,
             t_template = [''a.tmpl'' \<mapsto> [TextNode ''hello'']]\<rparr>))
        [] ''a.tmpl'' GNil = Some (''hello'', None)
   \<and> Execute 0 \<lparr>t_logger = \<lparr>sink = Some \<lparr>verbosity = 0\<rparr>, level = 0\<rparr>, t_names = Some 0,
             t_template = [''a.tmpl'' \<mapsto> [TextNode ''hello'']]\<rparr>
        dest_Write \<lparr>received = [], room = Some 3\<rparr> ''a.tmpl'' GNil
       = Some (Err (WriteError ''no space left''), \<lparr>received = ''hel'', room = Some 0\<rparr>)"
proof -
  have "Build (\<lambda>body. Inr [TextNode body])
     \<lparr>b_logger = \<lparr>sink = Some \<lparr>verbosity = 0\<rparr>, level = 0\<rparr>,
        b_fsys = Some \<lparr>tree = Dir [(''a.tmpl'', File ''hello'')], base = []\<rparr>, b_dir = []\<rparr>
     \<lparr>cells = Map.empty, next_ref = 0\<rparr>
     = (Inr \<lparr>t_logger = \<lparr>sink = Some \<lparr>verbosity = 0\<rparr>, level = 0\<rparr>, t_names = Some 0,
             t_template = [''a.tmpl'' \<mapsto> [TextNode ''hello'']]\<rparr>,
        \<lparr>cells = [0 \<mapsto> [''a.tmpl'']], next_ref = 1\<rparr>)"
    by (simp add: Build_def GetSink_def findFiles_def fs_WalkDir_def resolve_def ValidPath_def
        elements_def findFiles_fn_def slice_append_def alloc_def path_Join_def elems_def
        parseFiles_def parseFile_def fs_ReadFile_def template_Parse_def)
  then show ?thesis
    by (simp add: Execute_def ExecuteTemplate_def Lookup_def template_Execute_def
        Buffer_WriteTo_def dest_Write_def)
qed

text \<open>
  Claim C3, amended. A rendering that fails makes \<open>Execute\<close> return its error with the
  destination as it was, whatever the rendering had already put into the buffer. A
  rendering that succeeds makes \<open>Execute\<close> return with the destination changed by one
  \<open>Write\<close> of the complete output and nothing else (by no \<open>Write\<close> at all for an empty
  output), and the result is nil exactly when that \<open>Write\<close> accepted all of it. \<open>Execute\<close>
  does not return only when the rendering does not.
\<close>

theorem Execute_buffers_rendering:
  "(ExecuteTemplate (t_template t) (FuncMap (executeFunc fuel t)) [] name data = Some (buffer, Some err)
      \<longrightarrow> Execute fuel t Write w name data = Some (Err err, w))
   \<and> (ExecuteTemplate (t_template t) (FuncMap (executeFunc fuel t)) [] name data = Some (buffer, None)
      \<longrightarrow> (if buffer = [] then Execute fuel t Write w name data = Some (Ok (), w)
           else \<exists>res. Execute fuel t Write w name data = Some (res, snd (Write buffer w))
                      \<and> (res = Ok () \<longleftrightarrow> fst (Write buffer w) = (length buffer, None))))
   \<and> (Execute fuel t Write w name data = None
      \<longleftrightarrow> ExecuteTemplate (t_template t) (FuncMap (executeFunc fuel t)) [] name data = None)"
proof (intro conjI impI)
  assume "ExecuteTemplate (t_template t) (FuncMap (executeFunc fuel t)) [] name data = Some (buffer, Some err)"
  then show "Execute fuel t Write w name data = Some (Err err, w)"
    by (simp add: Execute_def)
next
  assume r: "ExecuteTemplate (t_template t) (FuncMap (executeFunc fuel t)) [] name data = Some (buffer, None)"
  then have e: "Execute fuel t Write w name data = Some (Buffer_WriteTo buffer Write w)"
    by (simp add: Execute_def)
  show "if buffer = [] then Execute fuel t Write w name data = Some (Ok (), w)
        else \<exists>res. Execute fuel t Write w name data = Some (res, snd (Write buffer w))
                   \<and> (res = Ok () \<longleftrightarrow> fst (Write buffer w) = (length buffer, None))"
  proof (cases "buffer = []")
    case True
    with e show ?thesis by (simp add: Buffer_WriteTo_empty)
  next
    case False
    have "Buffer_WriteTo buffer Write w
            = (fst (Buffer_WriteTo buffer Write w), snd (Write buffer w))"
      using Buffer_WriteTo_nonempty(1) [OF False, of Write w] by (simp add: prod_eq_iff)
    with e have "Execute fuel t Write w name data
                   = Some (fst (Buffer_WriteTo buffer Write w), snd (Write buffer w))"
      by simp
    with False Buffer_WriteTo_nonempty(2) [OF False, of Write w] show ?thesis
      by auto
  qed
next
  show "Execute fuel t Write w name data = None
      \<longleftrightarrow> ExecuteTemplate (t_template t) (FuncMap (executeFunc fuel t)) [] name data = None"
    by (auto simp: Execute_def split: option.splits)
qed

theorem Execute_buffers_rendering_witness:
  "Build (\<lambda>body. if body = ''partial{{ execute \"missing.tmpl\" . }}''
                  then Inr [TextNode ''partial'', ActionNode [Call ExecuteFn [StringLit ''missing.tmpl'', Dot]]]
                  else Inr [TextNode body])
     \<lparr>b_logger = \<lparr>sink = Some \<lparr>verbosity = 0\<rparr>, level = 0\<rparr>,
        b_fsys = Some \<lparr>tree = Dir [(''outer.tmpl'', File ''partial{{ execute \"missing.tmpl\" . }}''),
                                     (''plain.tmpl'', File ''hello'')], base = []\<rparr>,
        b_dir = []\<rparr>
     \<lparr>cells = Map.empty, next_ref = 0\<rparr>
     = (Inr \<lparr>t_logger = \<lparr>sink = Some \<lparr>verbosity = 0\<rparr>, level = 0\<rparr>, t_names = Some 0,
             t_template = [''outer.tmpl'' \<mapsto> [TextNode ''partial'', ActionNode [Call ExecuteFn [StringLit ''missing.tmpl'', Dot]]],
                           ''plain.tmpl'' \<mapsto> [TextNode ''hello'']]\<rparr>,
        \<lparr>cells = [0 \<mapsto> [''outer.tmpl'', ''plain.tmpl'']], next_ref = 1\<rparr>)
   \<and> Execute 1 \<lparr>t_logger = \<lparr>sink = Some \<lparr>verbosity = 0\<rparr>, level = 0\<rparr>, t_names = Some 0,
             t_template = [''outer.tmpl'' \<mapsto> [TextNode ''partial'', ActionNode [Call ExecuteFn [StringLit ''missing.tmpl'', Dot]]],
                           ''plain.tmpl'' \<mapsto> [TextNode ''hello'']]\<rparr>
        dest_Write \<lparr>received = [], room = None\<rparr> ''outer.tmpl'' GNil
       = Some (Err (ExecutionError ''execute'' NilDereference), \<lparr>received = [], room = None\<rparr>)
   \<and> (\<exists>res. Execute 1 \<lparr>t_logger = \<lparr>sink = Some \<lparr>verbosity = 0\<rparr>, level = 0\<rparr>, t_names = Some 0,
             t_template = [''outer.tmpl'' \<mapsto> [TextNode ''partial'', ActionNode [Call ExecuteFn [StringLit ''missing.tmpl'', Dot]]],
                           ''plain.tmpl'' \<mapsto> [TextNode ''hello'']]\<rparr>
        dest_Write \<lparr>received = [], room = None\<rparr> ''plain.tmpl'' GNil
       = Some (res, snd (dest_Write ''hello'' \<lparr>received = [], room = None\<rparr>)))"
proof -
  let ?t = "\<lparr>t_logger = \<lparr>sink = Some \<lparr>verbosity = 0\<rparr>, level = 0\<rparr>, t_names = Some 0,
             t_template = [''outer.tmpl'' \<mapsto> [TextNode ''partial'', ActionNode [Call ExecuteFn [StringLit ''missing.tmpl'', Dot]]],
                           ''plain.tmpl'' \<mapsto> [TextNode ''hello'']]\<rparr>"
  have b: "Build (\<lambda>body. if body = ''partial{{ execute \"missing.tmpl\" . }}''
                  then Inr [TextNode ''partial'', ActionNode [Call ExecuteFn [StringLit ''missing.tmpl'', Dot]]]
                  else Inr [TextNode body])
     \<lparr>b_logger = \<lparr>sink = Some \<lparr>verbosity = 0\<rparr>, level = 0\<rparr>,
        b_fsys = Some \<lparr>tree = Dir [(''outer.tmpl'', File ''partial{{ execute \"missing.tmpl\" . }}''),
                                     (''plain.tmpl'', File ''hello'')], base = []\<rparr>,
        b_dir = []\<rparr>
     \<lparr>cells = Map.empty, next_ref = 0\<rparr>
     = (Inr ?t, \<lparr>cells = [0 \<mapsto> [''outer.tmpl'', ''plain.tmpl'']], next_ref = 1\<rparr>)"
    by (simp add: Build_def GetSink_def findFiles_def fs_WalkDir_def resolve_def ValidPath_def
        elements_def findFiles_fn_def slice_append_def alloc_def path_Join_def elems_def
        parseFiles_def parseFile_def fs_ReadFile_def template_Parse_def IsEmptyTree_def)
  have f: "ExecuteTemplate (t_template ?t) (FuncMap (executeFunc 1 ?t)) [] ''outer.tmpl'' GNil
             = Some (''partial'', Some (ExecutionError ''execute'' NilDereference))"
    by (simp add: ExecuteTemplate_def Lookup_def template_Execute_def evalCall_def FuncMap_def)
  have g: "ExecuteTemplate (t_template ?t) (FuncMap (executeFunc 1 ?t)) [] ''plain.tmpl'' GNil
             = Some (''hello'', None)"
    by (simp add: ExecuteTemplate_def Lookup_def template_Execute_def)
  from f Execute_buffers_rendering [of ?t 1 "''outer.tmpl''" GNil "''partial''"
      "ExecutionError ''execute'' NilDereference" dest_Write "\<lparr>received = [], room = None\<rparr>"]
  have 1: "Execute 1 ?t dest_Write \<lparr>received = [], room = None\<rparr> ''outer.tmpl'' GNil
       = Some (Err (ExecutionError ''execute'' NilDereference), \<lparr>received = [], room = None\<rparr>)"
    by blast
  from g Execute_buffers_rendering [of ?t 1 "''plain.tmpl''" GNil "''hello''" _
      dest_Write "\<lparr>received = [], room = None\<rparr>"]
  have 2: "\<exists>res. Execute 1 ?t dest_Write \<lparr>received = [], room = None\<rparr> ''plain.tmpl'' GNil
       = Some (res, snd (dest_Write ''hello'' \<lparr>received = [], room = None\<rparr>))"
    by auto
  from b 1 2 show ?thesis by (intro conjI)
qed

section \<open>The base64 function\<close>

lemma enc_in_alphabet: "enc v \<in> set encodeStd"
  unfolding enc_def by (rule nth_mem) (simp add: encodeStd_def)

lemma EncodeToString_length: "length (EncodeToString bs) = 4 * ((length bs + 2) div 3)"
proof (induction bs rule: EncodeToString.induct)
  case (4 a b c rest)
  have "(5 + length rest) div 3 = Suc (Suc (Suc (length rest)) div 3)"
    by presburger
  with 4 show ?case by (simp add: Let_def)
qed (simp_all add: Let_def)

lemma EncodeToString_alphabet: "set (EncodeToString bs) \<subseteq> set encodeStd \<union> {CHR ''=''}"
  by (induction bs rule: EncodeToString.induct) (simp_all add: Let_def enc_in_alphabet)

lemma newline_not_in_alphabet: "CHR 0x0A \<notin> set encodeStd \<union> {CHR ''=''}"
  by (simp add: encodeStd_def)

lemma EncodeToString_hello: "EncodeToString (bytes_of ''hello'') = ''aGVsbG8=''"
  by (simp add: bytes_of_def enc_def encodeStd_def)

lemma EncodeToString_hi: "EncodeToString (bytes_of ''hi'') = ''aGk=''"
  by (simp add: bytes_of_def enc_def encodeStd_def)

lemma mod_shifted:
  fixes a k m n :: nat
  assumes "k < m" and "0 < n"
  shows "(a * m + k) mod (n * m) = (a mod n) * m + k"
proof -
  define q where "q = a div n"
  define r where "r = a mod n"
  have a: "a = q * n + r" and r: "r < n"
    using assms(2) by (simp_all add: q_def r_def)
  have "r * m + k < n * m"
  proof -
    from r have "Suc r \<le> n" by simp
    then have "Suc r * m \<le> n * m" by (rule mult_le_mono1)
    with assms(1) show ?thesis by simp
  qed
  then have "(q * (n * m) + (r * m + k)) mod (n * m) = r * m + k"
    by (simp only: mod_mult_self3 mod_less)
  moreover have "a * m + k = q * (n * m) + (r * m + k)"
    unfolding a by (simp add: algebra_simps)
  ultimately show ?thesis
    by (simp only: r_def)
qed

lemma mod_64_second: "b < 256 \<Longrightarrow> (a * 16 + b div 16) mod 64 = (a mod 4) * 16 + b div (16::nat)"
  using mod_shifted [of "b div 16" 16 4 a] by simp

lemma mod_64_third: "c < 256 \<Longrightarrow> (a * 1024 + b * 4 + c div 64) mod 64 = (b mod 16) * 4 + c div (64::nat)"
proof -
  assume c: "c < 256"
  have "a * 1024 + b * 4 + c div 64 = (a * 16) * 64 + (b * 4 + c div 64)"
    by simp
  then have "(a * 1024 + b * 4 + c div 64) mod 64 = (b * 4 + c div 64) mod 64"
    by (simp only: mod_mult_self3)
  also have "\<dots> = (b mod 16) * 4 + c div 64"
    using mod_shifted [of "c div 64" 4 16 b] c by simp
  finally show ?thesis .
qed

lemma mod_64_fourth: "(a * 65536 + b * 256 + c) mod 64 = c mod (64::nat)"
proof -
  have "a * 65536 + b * 256 + c = (a * 1024 + b * 4) * 64 + c" by simp
  then show ?thesis by (simp only: mod_mult_self3)
qed


lemma sextets:
  fixes a b c :: nat
  assumes "a < 256" "b < 256" "c < 256"
  shows "(a * 65536 + b * 256 + c) div 262144 mod 64 = a div 4"
    and "(a * 65536 + b * 256 + c) div 4096 mod 64 = (a mod 4) * 16 + b div 16"
    and "(a * 65536 + b * 256 + c) div 64 mod 64 = (b mod 16) * 4 + c div 64"
    and "(a * 65536 + b * 256 + c) mod 64 = c mod 64"
proof -
  let ?x = "a * 65536 + b * 256 + c"
  have x256: "?x div 256 = a * 256 + b"
    using assms(3) by simp
  have "?x div 262144 = ?x div 256 div 1024"
    by (simp add: div_mult2_eq [symmetric])
  also have "\<dots> = a div 4"
    using assms(2) unfolding x256 by simp
  finally show "?x div 262144 mod 64 = a div 4"
    using assms(1) by simp
  have "?x div 4096 = ?x div 256 div 16"
    by (simp add: div_mult2_eq [symmetric])
  also have "\<dots> = a * 16 + b div 16"
    unfolding x256 by simp
  finally show "?x div 4096 mod 64 = (a mod 4) * 16 + b div 16"
    using mod_64_second [OF assms(2), of a] by simp
  have "?x div 64 = a * 1024 + b * 4 + c div 64"
    by simp
  then show "?x div 64 mod 64 = (b mod 16) * 4 + c div 64"
    using mod_64_third [OF assms(3), of a b] by simp
  show "?x mod 64 = c mod 64"
    by (rule mod_64_fourth)
qed

lemma byte_of_nat: "unat w = n mod 256 \<Longrightarrow> of_nat n = (w :: byte)"
proof -
  assume "unat w = n mod 256"
  then have "unat (of_nat n :: byte) = unat w"
    by (simp add: unat_of_nat)
  then show ?thesis
    by (simp only: word_unat_eq_iff)
qed

lemma unat_byte: "unat (w :: byte) < 256"
  using unsigned_less [of w, where ?'a = nat] by simp

lemma first_byte:
  fixes a b :: nat
  assumes "b < 256"
  shows "a div 4 * 4 + ((a mod 4) * 16 + b div 16) div 16 = a"
proof -
  from assms have "b div 16 < 16" by simp
  then have "((a mod 4) * 16 + b div 16) div 16 = a mod 4" by simp
  then show ?thesis by simp
qed

lemma second_byte:
  fixes a b c :: nat
  assumes "b < 256" "c < 256"
  shows "(((a mod 4) * 16 + b div 16) * 16 + ((b mod 16) * 4 + c div 64) div 4) mod 256 = b"
proof -
  from assms(2) have "c div 64 < 4" by simp
  then have "((b mod 16) * 4 + c div 64) div 4 = b mod 16" by simp
  then have "((a mod 4) * 16 + b div 16) * 16 + ((b mod 16) * 4 + c div 64) div 4
               = (a mod 4) * 256 + (b div 16 * 16 + b mod 16)"
    by (simp add: algebra_simps)
  also have "\<dots> = (a mod 4) * 256 + b" by simp
  finally show ?thesis using assms(1) by simp
qed

lemma third_byte:
  fixes b c :: nat
  assumes "c < 256"
  shows "(((b mod 16) * 4 + c div 64) * 64 + c mod 64) mod 256 = c"
proof -
  have "((b mod 16) * 4 + c div 64) * 64 + c mod 64 = (b mod 16) * 256 + (c div 64 * 64 + c mod 64)"
    by (simp add: algebra_simps)
  also have "\<dots> = (b mod 16) * 256 + c" by simp
  finally show ?thesis using assms by simp
qed

lemma length_encodeStd: "length encodeStd = 64"
  by (simp add: encodeStd_def)

lemma distinct_encodeStd: "distinct encodeStd"
  by (simp add: encodeStd_def)

lemma decode_enc: "decode_char (enc v) = Some (v mod 64)"
proof -
  have "map_of (zip encodeStd [0..<64]) (encodeStd ! (v mod 64)) = Some ([0..<64] ! (v mod 64))"
    by (rule map_of_zip_nth) (simp_all add: length_encodeStd distinct_encodeStd)
  then show ?thesis
    by (simp add: decode_char_def enc_def)
qed

lemma enc_not_pad: "enc v \<noteq> CHR ''=''"
proof -
  have "CHR ''='' \<notin> set encodeStd" by (simp add: encodeStd_def)
  with enc_in_alphabet [of v] show ?thesis by metis
qed

lemma decoded_one:
  fixes a :: nat
  assumes "a < 256"
  shows "(a * 65536 div 262144 mod 64 * 4 + a * 65536 div 4096 mod 64 div 16) mod 256 = a"
proof -
  from sextets(1,2) [OF assms, of 0 0]
  have "a * 65536 div 262144 mod 64 = a div 4" and "a * 65536 div 4096 mod 64 = (a mod 4) * 16"
    by simp_all
  then have "a * 65536 div 262144 mod 64 * 4 + a * 65536 div 4096 mod 64 div 16 = a div 4 * 4 + a mod 4"
    by simp
  with assms show ?thesis by simp
qed

lemma decoded_two:
  fixes a b :: nat
  assumes "a < 256" "b < 256"
  shows "((a * 65536 + b * 256) div 262144 mod 64 * 4 + (a * 65536 + b * 256) div 4096 mod 64 div 16) mod 256 = a"
    and "((a * 65536 + b * 256) div 4096 mod 64 * 16 + (a * 65536 + b * 256) div 64 mod 64 div 4) mod 256 = b"
proof -
  let ?x = "a * 65536 + b * 256"
  from sextets(1,2,3) [OF assms, of 0]
  have s: "?x div 262144 mod 64 = a div 4" "?x div 4096 mod 64 = (a mod 4) * 16 + b div 16"
    "?x div 64 mod 64 = (b mod 16) * 4"
    by simp_all
  have "?x div 262144 mod 64 * 4 + ?x div 4096 mod 64 div 16 = a"
    unfolding s by (rule first_byte [OF assms(2)])
  with assms(1) show "(?x div 262144 mod 64 * 4 + ?x div 4096 mod 64 div 16) mod 256 = a"
    by simp
  from second_byte [OF assms(2), of 0 a]
  show "(?x div 4096 mod 64 * 16 + ?x div 64 mod 64 div 4) mod 256 = b"
    unfolding s by simp
qed

lemma decoded_three:
  fixes a b c :: nat
  assumes "a < 256" "b < 256" "c < 256"
  shows "((a * 65536 + b * 256 + c) div 262144 mod 64 * 4 + (a * 65536 + b * 256 + c) div 4096 mod 64 div 16) mod 256 = a"
    and "((a * 65536 + b * 256 + c) div 4096 mod 64 * 16 + (a * 65536 + b * 256 + c) div 64 mod 64 div 4) mod 256 = b"
    and "((a * 65536 + b * 256 + c) div 64 mod 64 * 64 + (a * 65536 + b * 256 + c) mod 64) mod 256 = c"
proof -
  let ?x = "a * 65536 + b * 256 + c"
  note s = sextets [OF assms]
  have "?x div 262144 mod 64 * 4 + ?x div 4096 mod 64 div 16 = a"
    unfolding s by (rule first_byte [OF assms(2)])
  with assms(1) show "(?x div 262144 mod 64 * 4 + ?x div 4096 mod 64 div 16) mod 256 = a"
    by simp
  show "(?x div 4096 mod 64 * 16 + ?x div 64 mod 64 div 4) mod 256 = b"
    unfolding s by (rule second_byte [OF assms(2,3)])
  have "(?x div 64 mod 64 * 64 + c mod 64) mod 256 = c"
    unfolding s by (rule third_byte [OF assms(3)])
  then show "(?x div 64 mod 64 * 64 + ?x mod 64) mod 256 = c"
    by (simp only: s(4))
qed

lemma Decode_Encode: "DecodeString (EncodeToString bs) = Some bs"
proof (induction bs rule: EncodeToString.induct)
  case 1
  show ?case by simp
next
  case (2 a)
  have "of_nat (unat a * 65536 div 262144 mod 64 * 4 + unat a * 65536 div 4096 mod 64 div 16) = a"
    by (rule byte_of_nat) (simp only: decoded_one [OF unat_byte])
  then show ?case
    by (simp add: Let_def decode_enc enc_not_pad)
next
  case (3 a b)
  let ?x = "unat a * 65536 + unat b * 256"
  have "of_nat (?x div 262144 mod 64 * 4 + ?x div 4096 mod 64 div 16) = a"
    by (rule byte_of_nat) (simp only: decoded_two(1) [OF unat_byte unat_byte])
  moreover have "of_nat (?x div 4096 mod 64 * 16 + ?x div 64 mod 64 div 4) = b"
    by (rule byte_of_nat) (simp only: decoded_two(2) [OF unat_byte unat_byte])
  ultimately show ?case
    by (simp add: Let_def decode_enc enc_not_pad)
next
  case (4 a b c rest)
  let ?x = "unat a * 65536 + unat b * 256 + unat c"
  have "of_nat (?x div 262144 mod 64 * 4 + ?x div 4096 mod 64 div 16) = a"
    by (rule byte_of_nat) (simp only: decoded_three(1) [OF unat_byte unat_byte unat_byte])
  moreover have "of_nat (?x div 4096 mod 64 * 16 + ?x div 64 mod 64 div 4) = b"
    by (rule byte_of_nat) (simp only: decoded_three(2) [OF unat_byte unat_byte unat_byte])
  moreover have "of_nat (?x div 64 mod 64 * 64 + ?x mod 64) = c"
    by (rule byte_of_nat) (simp only: decoded_three(3) [OF unat_byte unat_byte unat_byte])
  ultimately show ?case
    using 4 by (simp add: Let_def decode_enc enc_not_pad)
qed

text \<open>
  Claim C7. \<open>base64\<close> returns the standard Base64 text of the bytes of a byte slice (the
  empty text for the nil one), of the bytes of a string, and of the bytes of what
  \<open>String()\<close> returns for a value with that method; for every other value it fails with the error that names the type. The text is
  the standard encoding (the standard decoder gives the bytes back), with four characters
  for every three bytes begun and no line break. A unit with the body
  \<open>{{ base64 "hello" }}\<close> renders to \<open>aGVsbG8=\<close>, for every input.
\<close>

theorem base64Func_encodes:
  "base64Func (GBytes bs) = Ok (EncodeToString bs)
   \<and> base64Func GNilBytes = Ok (EncodeToString [])
   \<and> base64Func (GString s) = Ok (EncodeToString (bytes_of s))
   \<and> base64Func (GStringer s u) = Ok (EncodeToString (bytes_of s))
   \<and> ((\<forall>bs. v \<noteq> GBytes bs) \<and> v \<noteq> GNilBytes \<and> (\<forall>s. v \<noteq> GString s) \<and> (\<forall>s u. v \<noteq> GStringer s u)
        \<longrightarrow> base64Func v = Err (UnsupportedTypeError (type_name v)))
   \<and> DecodeString (EncodeToString bs) = Some bs
   \<and> length (EncodeToString bs) = 4 * ((length bs + 2) div 3)
   \<and> CHR 0x0A \<notin> set (EncodeToString bs)
   \<and> (Lookup (t_template t) name = Some [ActionNode [Call Base64 [StringLit ''hello'']]]
        \<longrightarrow> Execute fuel t dest_Write \<lparr>received = [], room = None\<rparr> name data
            = Some (Ok (), \<lparr>received = ''aGVsbG8='', room = None\<rparr>))"
proof -
  have "base64Func v = Err (UnsupportedTypeError (type_name v))"
    if "\<forall>bs. v \<noteq> GBytes bs" "v \<noteq> GNilBytes" "\<forall>s. v \<noteq> GString s" "\<forall>s u. v \<noteq> GStringer s u"
    using that by (cases v) simp_all
  moreover have "CHR 0x0A \<notin> set (EncodeToString bs)"
    using EncodeToString_alphabet [of bs] newline_not_in_alphabet by blast
  moreover have "Execute fuel t dest_Write \<lparr>received = [], room = None\<rparr> name data
            = Some (Ok (), \<lparr>received = ''aGVsbG8='', room = None\<rparr>)"
    if "Lookup (t_template t) name = Some [ActionNode [Call Base64 [StringLit ''hello'']]]"
    using that
    by (simp add: Execute_def ExecuteTemplate_def template_Execute_def evalCall_def FuncMap_def
        EncodeToString_hello Buffer_WriteTo_def dest_Write_def)
  ultimately show ?thesis
    by (simp add: EncodeToString_length Decode_Encode)
qed

theorem base64Func_encodes_witness:
  "base64Func (GInt 7) = Err (UnsupportedTypeError ''int'')
   \<and> Execute 0 \<lparr>t_logger = zero_Logger, t_names = None,
         t_template = [''b.tmpl'' \<mapsto> [ActionNode [Call Base64 [StringLit ''hello'']]]]\<rparr>
        dest_Write \<lparr>received = [], room = None\<rparr> ''b.tmpl'' GNil
       = Some (Ok (), \<lparr>received = ''aGVsbG8='', room = None\<rparr>)"
proof -
  let ?t = "\<lparr>t_logger = zero_Logger, t_names = None,
         t_template = [''b.tmpl'' \<mapsto> [ActionNode [Call Base64 [StringLit ''hello'']]]]\<rparr>"
  have a: "(\<forall>bs. GInt 7 \<noteq> GBytes bs) \<and> GInt 7 \<noteq> GNilBytes \<and> (\<forall>s. GInt 7 \<noteq> GString s)
           \<and> (\<forall>s u. GInt 7 \<noteq> GStringer s u)"
    by simp
  have b: "Lookup (t_template ?t) ''b.tmpl'' = Some [ActionNode [Call Base64 [StringLit ''hello'']]]"
    by (simp add: Lookup_def)
  from base64Func_encodes [of _ _ _ "GInt 7" ?t "''b.tmpl''" 0 GNil] a b
  show ?thesis by simp
qed

section \<open>Composition of execute and base64\<close>

text \<open>
  Claim C8. In a template where the unit \<open>inner.tmpl\<close> renders to \<open>hi\<close> for an input, a unit
  with the body \<open>{{ execute "inner.tmpl" . | base64 }}\<close> renders to exactly \<open>aGk=\<close> for
  that input, and that is what the destination receives.
\<close>

theorem execute_piped_into_base64:
  assumes "Lookup (t_template t) outer =
             Some [ActionNode [Call ExecuteFn [StringLit ''inner.tmpl'', Dot], Call Base64 []]]"
      and "Lookup (t_template t) ''inner.tmpl'' = Some inner"
      and "template_Execute (FuncMap (executeFunc fuel t)) inner [] data = Some (''hi'', None)"
  shows "ExecuteTemplate (t_template t) (FuncMap (executeFunc (Suc fuel) t)) [] outer data
           = Some (''aGk='', None)
       \<and> Execute (Suc fuel) t dest_Write \<lparr>received = [], room = None\<rparr> outer data
           = Some (Ok (), \<lparr>received = ''aGk='', room = None\<rparr>)"
  using assms
  by (simp add: Execute_def ExecuteTemplate_def template_Execute_def evalCall_def FuncMap_def
      EncodeToString_hi Buffer_WriteTo_def dest_Write_def)

theorem execute_piped_into_base64_witness:
  "Execute 1 \<lparr>t_logger = zero_Logger, t_names = None,
        t_template = [''outer.tmpl'' \<mapsto> [ActionNode [Call ExecuteFn [StringLit ''inner.tmpl'', Dot], Call Base64 []]],
                      ''inner.tmpl'' \<mapsto> [TextNode ''h'', TextNode ''i'']]\<rparr>
      dest_Write \<lparr>received = [], room = None\<rparr> ''outer.tmpl'' (GMap [(''a'', GInt 1)])
     = Some (Ok (), \<lparr>received = ''aGk='', room = None\<rparr>)"
proof -
  let ?t = "\<lparr>t_logger = zero_Logger, t_names = None,
        t_template = [''outer.tmpl'' \<mapsto> [ActionNode [Call ExecuteFn [StringLit ''inner.tmpl'', Dot], Call Base64 []]],
                      ''inner.tmpl'' \<mapsto> [TextNode ''h'', TextNode ''i'']]\<rparr>"
  have a: "Lookup (t_template ?t) ''outer.tmpl'' =
             Some [ActionNode [Call ExecuteFn [StringLit ''inner.tmpl'', Dot], Call Base64 []]]"
    by (simp add: Lookup_def)
  have b: "Lookup (t_template ?t) ''inner.tmpl'' = Some [TextNode ''h'', TextNode ''i'']"
    by (simp add: Lookup_def)
  have c: "template_Execute (FuncMap (executeFunc 0 ?t)) [TextNode ''h'', TextNode ''i''] [] (GMap [(''a'', GInt 1)])
             = Some (''hi'', None)"
    by (simp add: template_Execute_def)
  from execute_piped_into_base64 [OF a b c] show ?thesis by simp
qed

section \<open>The json function\<close>

subsection \<open>Escapes and code points\<close>

lemma char_of_nat_eq: "(of_char c :: nat) = n \<Longrightarrow> char_of n = c"
proof -
  assume "(of_char c :: nat) = n"
  then have "char_of n = char_of (of_char c :: nat)" by simp
  then show ?thesis by (simp only: char_of_char)
qed

lemma replacement_bytes:
  "char_of (239 :: nat) = CHR 0xEF" "char_of (191 :: nat) = CHR 0xBF" "char_of (189 :: nat) = CHR 0xBD"
  "char_of (226 :: nat) = CHR 0xE2" "char_of (128 :: nat) = CHR 0x80" "char_of (168 :: nat) = CHR 0xA8"
  "char_of (169 :: nat) = CHR 0xA9"
  by (rule char_of_nat_eq, simp)+

lemma utf8_encode_replacement: "utf8_encode (hex_value ''fffd'') = replacement"
  by (simp add: utf8_encode_def hex_value_def hexdigit_value_def decdigit_def replacement_def
      replacement_bytes)

lemma utf8_encode_line_separator: "utf8_encode (hex_value ''2028'') = line_separator"
  by (simp add: utf8_encode_def hex_value_def hexdigit_value_def decdigit_def line_separator_def
      replacement_bytes)

lemma utf8_encode_paragraph_separator: "utf8_encode (hex_value ''2029'') = paragraph_separator"
  by (simp add: utf8_encode_def hex_value_def hexdigit_value_def decdigit_def
      paragraph_separator_def replacement_bytes)

lemma hex_value_ffd: "hex_value ''fffd'' = 65533" "hex_value ''2028'' = 8232" "hex_value ''2029'' = 8233"
  by (simp_all add: hex_value_def hexdigit_value_def decdigit_def)

lemma hexdigit_hex: "hexdigit (hex d)"
proof -
  have "''0123456789abcdef'' ! (d mod 16) \<in> set ''0123456789abcdef''"
    by (rule nth_mem) simp
  then show ?thesis
    unfolding hex_def hexdigit_def by auto
qed

lemma hexdigit_value_hex: "hexdigit_value (hex d) = d mod 16"
proof -
  have "d mod 16 \<in> {0, 1, 2, 3, 4, 5, 6, 7, 8, 9, 10, 11, 12, 13, 14, 15}"
    by (simp add: mod_less_divisor) arith
  then show ?thesis
    by (auto simp: hex_def hexdigit_value_def decdigit_def)
qed

lemma hex_value_four:
  "hex_value [a, b, c, d]
     = ((hexdigit_value a * 16 + hexdigit_value b) * 16 + hexdigit_value c) * 16 + hexdigit_value d"
  by (simp add: hex_value_def)

lemma hexdigit_value_zero: "hexdigit_value CHR ''0'' = 0"
  by (simp add: hexdigit_value_def decdigit_def)

lemma hex_value_byte:
  assumes "x < 256"
  shows "hex_value [CHR ''0'', CHR ''0'', hex (x div 16), hex x] = x"
proof -
  from assms have "x div 16 mod 16 = x div 16" by simp
  then have "hex_value [CHR ''0'', CHR ''0'', hex (x div 16), hex x] = x div 16 * 16 + x mod 16"
    by (simp only: hex_value_four hexdigit_value_zero hexdigit_value_hex) simp
  then show ?thesis by simp
qed


subsection \<open>Well-formed sequences\<close>

lemma rune_len_le_4: "rune_len xs \<le> 4"
  by (cases xs) (auto simp: Let_def split: list.splits)

lemma rune_len_take:
  assumes "rune_len xs \<noteq> 0"
  shows "rune_len xs \<le> length xs \<and> rune_len (take (rune_len xs) xs) = rune_len xs"
proof (cases xs)
  case Nil
  with assms show ?thesis by (simp add: Let_def)
next
  case (Cons c cs)
  show ?thesis
  proof (cases "(of_char c :: nat) < 0x80")
    case True
    with Cons show ?thesis by (simp add: Let_def)
  next
    case False
    note ascii = this
    show ?thesis
    proof (cases "0xC2 \<le> (of_char c :: nat) \<and> (of_char c :: nat) \<le> 0xDF")
      case True
      with assms Cons ascii obtain c1 rest where "cs = c1 # rest" "byte_in 0x80 0xBF c1"
        by (cases cs) (auto simp: Let_def split: if_splits)
      with Cons ascii True show ?thesis by (simp add: Let_def)
    next
      case False
      note two = this
      show ?thesis
      proof (cases "0xE0 \<le> (of_char c :: nat) \<and> (of_char c :: nat) \<le> 0xEF")
        case True
        with assms Cons ascii two obtain c1 c2 rest where "cs = c1 # c2 # rest"
          "byte_in (second_lo (of_char c)) (second_hi (of_char c)) c1" "byte_in 0x80 0xBF c2"
          by (cases cs; cases "tl cs") (auto simp: Let_def split: if_splits)
        with Cons ascii two True show ?thesis by (simp add: Let_def)
      next
        case False
        note three = this
        show ?thesis
        proof (cases "0xF0 \<le> (of_char c :: nat) \<and> (of_char c :: nat) \<le> 0xF4")
          case True
          with assms Cons ascii two three obtain c1 c2 c3 rest where "cs = c1 # c2 # c3 # rest"
            "byte_in (second_lo (of_char c)) (second_hi (of_char c)) c1" "byte_in 0x80 0xBF c2"
            "byte_in 0x80 0xBF c3"
            by (cases cs; cases "tl cs"; cases "tl (tl cs)") (auto simp: Let_def split: if_splits)
          with Cons ascii two three True show ?thesis by (simp add: Let_def)
        next
          case False
          with assms Cons ascii two three show ?thesis by (simp add: Let_def)
        qed
      qed
    qed
  qed
qed

lemma rune_len_single: "rune_len [c] \<noteq> 0 \<Longrightarrow> (of_char c :: nat) < 0x80"
  by (auto simp: Let_def split: if_splits)

lemma decode_runes_valid:
  "Rune bs \<in> set (decode_runes s) \<Longrightarrow> valid_rune bs"
proof (induction s rule: decode_runes.induct)
  case 1
  then show ?case by simp
next
  case (2 c cs)
  show ?case
  proof (cases "rune_len (c # cs) = 0")
    case True
    with 2 show ?thesis by simp
  next
    case False
    from rune_len_take [OF False]
    have "valid_rune (take (rune_len (c # cs)) (c # cs))"
      using False by (simp add: valid_rune_def min_def)
    with 2 False show ?thesis by auto
  qed
qed


subsection \<open>The text of a string denotes the string\<close>

lemma json_chars_byte:
  assumes "(of_char c :: nat) < 0x80" and "json_chars cs s"
  shows "json_chars (escape_byte c @ cs) (c # s)"
proof -
  have short: "json_chars (CHR 0x5C # e # cs) (c # s)" if "(e, c) \<in> set short_escapes" for e
    using that assms(2) by (rule chars_escape)
  consider (quote) "c = CHR ''\"''" | (backslash) "c = CHR 0x5C" | (bs) "c = CHR 0x08"
    | (ff) "c = CHR 0x0C" | (nl) "c = CHR 0x0A" | (cr) "c = CHR 0x0D" | (tab) "c = CHR 0x09"
    | (ctl) "c \<noteq> CHR ''\"''" "c \<noteq> CHR 0x5C" "c \<noteq> CHR 0x08" "c \<noteq> CHR 0x0C" "c \<noteq> CHR 0x0A"
        "c \<noteq> CHR 0x0D" "c \<noteq> CHR 0x09"
        "(of_char c :: nat) < 32 \<or> c = CHR ''<'' \<or> c = CHR ''>'' \<or> c = CHR ''&''"
    | (other) "c \<noteq> CHR ''\"''" "c \<noteq> CHR 0x5C" "c \<noteq> CHR 0x08" "c \<noteq> CHR 0x0C" "c \<noteq> CHR 0x0A"
        "c \<noteq> CHR 0x0D" "c \<noteq> CHR 0x09"
        "\<not> ((of_char c :: nat) < 32 \<or> c = CHR ''<'' \<or> c = CHR ''>'' \<or> c = CHR ''&'')"
    by blast
  then show ?thesis
  proof cases
    case quote
    then show ?thesis using short [of "CHR ''\"''"] by (simp add: escape_byte_def short_escapes_def)
  next
    case backslash
    then show ?thesis using short [of "CHR 0x5C"] by (simp add: escape_byte_def short_escapes_def)
  next
    case bs
    then show ?thesis using short [of "CHR ''b''"] by (simp add: escape_byte_def short_escapes_def)
  next
    case ff
    then show ?thesis using short [of "CHR ''f''"] by (simp add: escape_byte_def short_escapes_def)
  next
    case nl
    then show ?thesis using short [of "CHR ''n''"] by (simp add: escape_byte_def short_escapes_def)
  next
    case cr
    then show ?thesis using short [of "CHR ''r''"] by (simp add: escape_byte_def short_escapes_def)
  next
    case tab
    then show ?thesis using short [of "CHR ''t''"] by (simp add: escape_byte_def short_escapes_def)
  next
    case ctl
    let ?x = "of_char c :: nat"
    from assms(1) have x: "?x < 256" by simp
    have zero: "hexdigit CHR ''0''" by (simp add: hexdigit_def)
    have v: "hex_value [CHR ''0'', CHR ''0'', hex (?x div 16), hex ?x] = ?x"
      by (rule hex_value_byte [OF x])
    have "json_chars (CHR 0x5C # CHR ''u'' # CHR ''0'' # CHR ''0'' # hex (?x div 16) # hex ?x # cs)
            (utf8_encode (hex_value [CHR ''0'', CHR ''0'', hex (?x div 16), hex ?x]) @ s)"
      using zero zero hexdigit_hex hexdigit_hex _ assms(2)
    proof (rule chars_unicode)
      show "hex_value [CHR ''0'', CHR ''0'', hex (?x div 16), hex ?x] < 0xD800
            \<or> 0xDFFF < hex_value [CHR ''0'', CHR ''0'', hex (?x div 16), hex ?x]"
        unfolding v using x by linarith
    qed
    moreover have "utf8_encode ?x = [c]"
      using assms(1) by (simp add: utf8_encode_def)
    ultimately show ?thesis
      using ctl by (simp add: escape_byte_def v)
  next
    case other
    have "valid_rune [c]"
      using assms(1) by (simp add: valid_rune_def)
    moreover have "plain_rune [c]"
      using other by (simp add: not_less)
    ultimately have "json_chars ([c] @ cs) ([c] @ s)"
      using assms(2) by (rule chars_rune)
    with other show ?thesis by (simp add: escape_byte_def)
  qed
qed

lemma json_chars_rune:
  assumes "case r of Rune bs \<Rightarrow> valid_rune bs | BadByte c \<Rightarrow> True" and "json_chars cs s"
  shows "json_chars (encode_rune r @ cs) (rune_bytes r @ s)"
proof (cases r)
  case (BadByte c)
  have f: "hexdigit CHR ''f''" and d: "hexdigit CHR ''d''" by (simp_all add: hexdigit_def)
  have "json_chars (CHR 0x5C # CHR ''u'' # CHR ''f'' # CHR ''f'' # CHR ''f'' # CHR ''d'' # cs)
          (utf8_encode (hex_value ''fffd'') @ s)"
    using f f f d _ assms(2) by (rule chars_unicode) (simp add: hex_value_ffd)
  with BadByte show ?thesis
    by (simp add: utf8_encode_replacement)
next
  case (Rune bs)
  with assms(1) have v: "valid_rune bs" by simp
  show ?thesis
  proof (cases "\<exists>c. bs = [c]")
    case True
    then obtain c where c: "bs = [c]" by blast
    with v have "(of_char c :: nat) < 0x80"
      using rune_len_single [of c] by (simp add: valid_rune_def)
    from json_chars_byte [OF this assms(2)] Rune c show ?thesis by simp
  next
    case False
    then have e: "encode_rune (Rune bs)
        = (if bs = line_separator then [CHR 0x5C, CHR ''u'', CHR ''2'', CHR ''0'', CHR ''2'', CHR ''8'']
           else if bs = paragraph_separator then [CHR 0x5C, CHR ''u'', CHR ''2'', CHR ''0'', CHR ''2'', CHR ''9'']
           else bs)"
      by (cases bs; cases "tl bs") auto
    have two: "hexdigit CHR ''2''" and zero: "hexdigit CHR ''0''" and eight: "hexdigit CHR ''8''"
      and nine: "hexdigit CHR ''9''"
      by (simp_all add: hexdigit_def)
    show ?thesis
    proof (cases "bs = line_separator")
      case True
      have "json_chars (CHR 0x5C # CHR ''u'' # CHR ''2'' # CHR ''0'' # CHR ''2'' # CHR ''8'' # cs)
              (utf8_encode (hex_value ''2028'') @ s)"
        using two zero two eight _ assms(2) by (rule chars_unicode) (simp add: hex_value_ffd)
      with True Rune e show ?thesis
        by (simp add: utf8_encode_line_separator)
    next
      case ls: False
      show ?thesis
      proof (cases "bs = paragraph_separator")
        case True
        have "json_chars (CHR 0x5C # CHR ''u'' # CHR ''2'' # CHR ''0'' # CHR ''2'' # CHR ''9'' # cs)
                (utf8_encode (hex_value ''2029'') @ s)"
          using two zero two nine _ assms(2) by (rule chars_unicode) (simp add: hex_value_ffd)
        with True ls Rune e show ?thesis
          by (simp add: utf8_encode_paragraph_separator)
      next
        case ps: False
        from False have "plain_rune bs" by (cases bs rule: plain_rune.cases) simp_all
        with v have "json_chars (bs @ cs) (bs @ s)"
          using assms(2) by (rule chars_rune)
        with ls ps Rune e show ?thesis by simp
      qed
    qed
  qed
qed

lemma json_chars_runes:
  assumes "\<forall>r \<in> set rs. case r of Rune bs \<Rightarrow> valid_rune bs | BadByte c \<Rightarrow> True"
  shows "json_chars (concat (map encode_rune rs)) (concat (map rune_bytes rs))"
  using assms
proof (induction rs)
  case Nil
  show ?case by (simp add: chars_end)
next
  case (Cons r rs)
  then have "json_chars (concat (map encode_rune rs)) (concat (map rune_bytes rs))"
    by simp
  with Cons.prems json_chars_rune [of r] show ?case by simp
qed

lemma json_chars_string: "json_chars (concat (map encode_rune (decode_runes s))) (sanitized s)"
  unfolding sanitized_def
proof (rule json_chars_runes)
  show "\<forall>r \<in> set (decode_runes s). case r of Rune bs \<Rightarrow> valid_rune bs | BadByte c \<Rightarrow> True"
    using decode_runes_valid [of _ s] by (auto split: rune.splits)
qed

lemma json_value_string: "json_value (json_string s) (JString (sanitized s))"
  unfolding json_string_def by (rule value_string) (rule json_chars_string)

lemma sanitized_valid: "ValidString s \<Longrightarrow> sanitized s = s"
proof (induction s rule: decode_runes.induct)
  case 1
  show ?case by (simp add: sanitized_def)
next
  case (2 c cs)
  from 2(3) have n: "rune_len (c # cs) \<noteq> 0"
    and v: "ValidString (drop (rune_len (c # cs)) (c # cs))"
    by (simp_all split: if_splits)
  from 2(2) [OF n v] have "sanitized (drop (rune_len (c # cs)) (c # cs)) = drop (rune_len (c # cs)) (c # cs)" .
  then have "sanitized (c # cs) = take (rune_len (c # cs)) (c # cs) @ drop (rune_len (c # cs)) (c # cs)"
    using n by (simp add: sanitized_def)
  then show ?case by (simp only: append_take_drop_id)
qed


subsection \<open>Base64 strings and numbers\<close>

lemma json_chars_plain:
  assumes "\<forall>c \<in> set cs. (of_char c :: nat) < 0x80 \<and> 32 \<le> (of_char c :: nat) \<and> c \<noteq> CHR ''\"'' \<and> c \<noteq> CHR 0x5C"
  shows "json_chars cs cs"
  using assms
proof (induction cs)
  case Nil
  show ?case by (rule chars_end)
next
  case (Cons c cs)
  then have "valid_rune [c]" "plain_rune [c]" "json_chars cs cs"
    by (simp_all add: valid_rune_def)
  then have "json_chars ([c] @ cs) ([c] @ cs)" by (rule chars_rune)
  then show ?case by simp
qed

lemma alphabet_plain:
  "c \<in> set encodeStd \<union> {CHR ''=''}
   \<Longrightarrow> (of_char c :: nat) < 0x80 \<and> 32 \<le> (of_char c :: nat) \<and> c \<noteq> CHR ''\"'' \<and> c \<noteq> CHR 0x5C"
  by (auto simp: encodeStd_def)

lemma json_chars_base64: "json_chars (EncodeToString bs) (EncodeToString bs)"
proof (rule json_chars_plain)
  show "\<forall>c \<in> set (EncodeToString bs). (of_char c :: nat) < 0x80 \<and> 32 \<le> (of_char c :: nat)
          \<and> c \<noteq> CHR ''\"'' \<and> c \<noteq> CHR 0x5C"
    using EncodeToString_alphabet [of bs] alphabet_plain by blast
qed

lemma digit_decdigit: "decdigit (digit d)"
proof -
  have "''0123456789'' ! (d mod 10) \<in> set ''0123456789''"
    by (rule nth_mem) simp
  then show ?thesis
    unfolding digit_def decdigit_def by auto
qed

lemma digit_zero: "d < 10 \<Longrightarrow> digit d = CHR ''0'' \<Longrightarrow> d = 0"
proof -
  assume lt: "d < 10" and z: "digit d = CHR ''0''"
  from lt have "d \<in> {0, 1, 2, 3, 4, 5, 6, 7, 8, 9}"
    by auto
  then show "d = 0"
    using z by (auto simp: digit_def)
qed

lemma digit_value: "(of_char (digit d) :: nat) - 48 = d mod 10"
proof -
  have "d mod 10 \<in> {0, 1, 2, 3, 4, 5, 6, 7, 8, 9}"
    by (simp add: mod_less_divisor) arith
  then show ?thesis
    by (auto simp: digit_def)
qed

lemma show_nat_digits: "show_nat n \<noteq> [] \<and> list_all decdigit (show_nat n) \<and> (hd (show_nat n) = CHR ''0'' \<longrightarrow> n = 0)"
proof (induction n rule: show_nat.induct)
  case (1 n)
  show ?case
  proof (cases "n < 10")
    case True
    then show ?thesis
      using digit_zero [of n] by (simp add: show_nat.simps [of n] digit_decdigit)
  next
    case False
    with 1 have ih: "show_nat (n div 10) \<noteq> []" "list_all decdigit (show_nat (n div 10))"
      "hd (show_nat (n div 10)) = CHR ''0'' \<longrightarrow> n div 10 = 0"
      by simp_all
    from False have "n div 10 \<noteq> 0" by simp
    with ih False show ?thesis
      by (simp add: show_nat.simps [of n] digit_decdigit)
  qed
qed

lemma show_nat_zero: "show_nat 0 = ''0''"
  by (simp add: show_nat.simps [of 0] digit_def)

lemma json_int_show_nat: "json_int (show_nat n)"
  using show_nat_digits [of n] show_nat_zero by (auto simp: json_int_def)

lemma dec_value_snoc: "dec_value (ds @ [c]) = dec_value ds * 10 + ((of_char c :: nat) - 48)"
  by (simp add: dec_value_def)

lemma dec_value_show_nat: "dec_value (show_nat n) = n"
proof (induction n rule: show_nat.induct)
  case (1 n)
  show ?case
  proof (cases "n < 10")
    case True
    then have "show_nat n = [digit n]" by (simp add: show_nat.simps [of n])
    then have "dec_value (show_nat n) = n mod 10"
      using dec_value_snoc [of "[]" "digit n"] by (simp add: digit_value dec_value_def)
    with True show ?thesis by simp
  next
    case False
    then have "show_nat n = show_nat (n div 10) @ [digit n]" by (simp add: show_nat.simps [of n])
    then have "dec_value (show_nat n) = dec_value (show_nat (n div 10)) * 10 + n mod 10"
      by (simp only: dec_value_snoc digit_value)
    also have "\<dots> = n div 10 * 10 + n mod 10"
      using 1 False by simp
    finally show ?thesis by simp
  qed
qed

lemma json_value_show_int: "json_value (show_int i) (JNumber i)"
proof (cases "i < 0")
  case True
  have "json_value (CHR ''-'' # show_nat (nat (- i))) (JNumber (- int (dec_value (show_nat (nat (- i))))))"
    by (rule value_negative) (rule json_int_show_nat)
  with True show ?thesis by (simp add: show_int_def dec_value_show_nat)
next
  case False
  have "json_value (show_nat (nat i)) (JNumber (int (dec_value (show_nat (nat i)))))"
    by (rule value_number) (rule json_int_show_nat)
  with False show ?thesis by (simp add: show_int_def dec_value_show_nat)
qed

lemma json_value_bytes:
  "json_value ([CHR ''\"''] @ EncodeToString bs @ [CHR ''\"'']) (JString (EncodeToString bs))"
  by (rule value_string) (rule json_chars_base64)

subsection \<open>The text of a value denotes the value\<close>

lemma marshal_denotes:
  shows "json_Marshal v = Inr out \<Longrightarrow> \<exists>j. to_json v = Some j \<and> json_value out j"
    and "marshal_elems vs = Inr outs \<Longrightarrow> \<exists>js. to_json_elems vs = Some js \<and> json_elems outs js"
    and "marshal_members kvs = Inr outs
           \<Longrightarrow> \<exists>kjs. to_json_members kvs = Some kjs \<and> json_members outs kjs"
proof (induction v and vs and kvs arbitrary: out and outs and outs
       rule: json_Marshal_marshal_elems_marshal_members.induct)
  case 1
  then show ?case by (auto intro: value_null)
next
  case (2 b)
  then show ?case by (auto intro: value_true value_false)
next
  case (3 i)
  then show ?case by (auto intro: json_value_show_int)
next
  case (4 s)
  then show ?case by (auto intro: json_value_string)
next
  case (5 bs)
  then show ?case using json_value_bytes [of bs] by auto
next
  case 6
  then show ?case by (auto intro: value_null)
next
  case (7 s u)
  then show ?case by simp
next
  case (8 r)
  then show ?case by (cases r) (auto intro: json_value_string)
next
  case (9 vs)
  then obtain xs where t: "marshal_elems vs = Inr xs" "out = ''['' @ commas xs @ '']''"
    by (auto split: sum.splits)
  from 9(1) [OF t(1)] obtain js where js: "to_json_elems vs = Some js" "json_elems xs js"
    by blast
  from js(2) have "json_value (''['' @ commas xs @ '']'') (JArray js)"
    by (rule value_array)
  with t js show ?case by simp
next
  case 10
  then show ?case by (auto intro: value_null)
next
  case (11 kvs)
  then obtain xs where t: "marshal_members kvs = Inr xs" "out = ''{'' @ commas xs @ ''}''"
    by (auto split: sum.splits)
  from 11(1) [OF t(1)] obtain kjs where kjs: "to_json_members kvs = Some kjs" "json_members xs kjs"
    by blast
  from kjs(2) have "json_value (''{'' @ commas xs @ ''}'') (JObject kjs)"
    by (rule value_object)
  with t kjs show ?case by simp
next
  case 12
  then show ?case by (auto intro: value_null)
next
  case 13
  then show ?case by simp
next
  case 14
  then show ?case by (auto intro: elems_end)
next
  case (15 v vs)
  then obtain x xs where x: "json_Marshal v = Inr x" "marshal_elems vs = Inr xs" "outs = x # xs"
    by (auto split: sum.splits)
  from 15(1) [OF x(1)] obtain j where j: "to_json v = Some j" "json_value x j" by blast
  from 15(2) [OF x(1) x(2)] obtain js where js: "to_json_elems vs = Some js" "json_elems xs js"
    by blast
  from j(2) js(2) have "json_elems (x # xs) (j # js)" by (rule elems_next)
  with x j js show ?case by simp
next
  case 16
  then show ?case by (auto intro: members_end)
next
  case (17 k v kvs)
  then obtain x xs where x: "json_Marshal v = Inr x" "marshal_members kvs = Inr xs"
    "outs = (json_string k @ '':'' @ x) # xs"
    by (auto split: sum.splits)
  from 17(1) [OF x(1)] obtain j where j: "to_json v = Some j" "json_value x j" by blast
  from 17(2) [OF x(1) x(2)] obtain kjs where kjs: "to_json_members kvs = Some kjs"
    "json_members xs kjs"
    by blast
  let ?kc = "concat (map encode_rune (decode_runes k))"
  have "json_members (([CHR ''\"''] @ ?kc @ [CHR ''\"''] @ '':'' @ x) # xs) ((sanitized k, j) # kjs)"
    using json_chars_string [of k] j(2) kjs(2) by (rule members_next)
  with x j kjs show ?case by (simp add: json_string_def)
qed

lemma marshal_fails:
  shows "json_Marshal v = Inl err \<Longrightarrow> to_json v = None \<and> (\<exists>msg. err = SerializationError msg)"
    and "marshal_elems vs = Inl err \<Longrightarrow> to_json_elems vs = None \<and> (\<exists>msg. err = SerializationError msg)"
    and "marshal_members kvs = Inl err
           \<Longrightarrow> to_json_members kvs = None \<and> (\<exists>msg. err = SerializationError msg)"
proof (induction v and vs and kvs arbitrary: err and err and err
       rule: json_Marshal_marshal_elems_marshal_members.induct)
  case (8 r)
  then show ?case by (cases r) auto
next
  case (9 vs)
  then have "marshal_elems vs = Inl err" by (auto split: sum.splits)
  from 9(1) [OF this] show ?case by simp
next
  case (11 kvs)
  then have "marshal_members kvs = Inl err" by (auto split: sum.splits)
  from 11(1) [OF this] show ?case by simp
next
  case (15 v vs)
  show ?case
  proof (cases "json_Marshal v")
    case (Inl e)
    with 15(3) have "e = err" by simp
    with 15(1) [of err] Inl show ?thesis by simp
  next
    case (Inr x)
    with 15(3) have f: "marshal_elems vs = Inl err" by (auto split: sum.splits)
    from 15(2) [OF Inr f] show ?thesis by (simp split: option.splits)
  qed
next
  case (17 k v kvs)
  show ?case
  proof (cases "json_Marshal v")
    case (Inl e)
    with 17(3) have "e = err" by simp
    with 17(1) [of err] Inl show ?thesis by simp
  next
    case (Inr x)
    with 17(3) have f: "marshal_members kvs = Inl err" by (auto split: sum.splits)
    from 17(2) [OF Inr f] show ?thesis by (simp split: option.splits)
  qed
qed simp_all

lemma jsonFunc_denotes:
  "to_json data = Some j \<Longrightarrow> \<exists>res. jsonFunc data = Ok res \<and> json_value res j"
proof (cases "json_Marshal data")
  case (Inl err)
  assume "to_json data = Some j"
  with marshal_fails(1) [OF Inl] show ?thesis by simp
next
  case (Inr res)
  assume j: "to_json data = Some j"
  from marshal_denotes(1) [OF Inr] j have "json_value res j" by auto
  with Inr show ?thesis by (simp add: jsonFunc_def)
qed

lemma jsonFunc_fails:
  "(\<exists>msg. jsonFunc data = Err (SerializationError msg)) \<longleftrightarrow> to_json data = None"
proof (cases "json_Marshal data")
  case (Inl err)
  with marshal_fails(1) [OF Inl] show ?thesis by (auto simp: jsonFunc_def)
next
  case (Inr res)
  with marshal_denotes(1) [OF Inr] show ?thesis by (auto simp: jsonFunc_def)
qed


subsection \<open>A text between quotes denotes one string only\<close>

lemma rune_len_append:
  assumes "valid_rune bs"
  shows "rune_len (bs @ xs) = length bs"
proof -
  from assms have n: "bs \<noteq> []" "rune_len bs = length bs" by (simp_all add: valid_rune_def)
  from n(2) rune_len_le_4 [of bs] have "length bs \<le> 4" by simp
  with n(1) consider c where "bs = [c]" | c c1 where "bs = [c, c1]"
    | c c1 c2 where "bs = [c, c1, c2]" | c c1 c2 c3 where "bs = [c, c1, c2, c3]"
    by (cases bs; cases "tl bs"; cases "tl (tl bs)"; cases "tl (tl (tl bs))") auto
  then show ?thesis
  proof cases
    case 1
    with n(2) show ?thesis by (simp add: Let_def split: if_splits)
  next
    case 2
    with n(2) show ?thesis by (simp add: Let_def split: if_splits)
  next
    case 3
    with n(2) show ?thesis by (simp add: Let_def split: if_splits)
  next
    case 4
    with n(2) show ?thesis by (simp add: Let_def split: if_splits)
  qed
qed

lemma plain_rune_head:
  assumes "valid_rune bs" and "plain_rune bs"
  shows "hd bs \<noteq> CHR 0x5C"
proof
  assume h: "hd bs = CHR 0x5C"
  from assms(1) obtain c rest where bs: "bs = c # rest" "rune_len bs = length bs"
    by (cases bs) (simp_all add: valid_rune_def)
  with h have "c = CHR 0x5C" by simp
  with bs have "bs = [CHR 0x5C]" by (simp add: Let_def)
  with assms(2) show False by simp
qed

lemma short_escapes_unique:
  "(e, c) \<in> set short_escapes \<Longrightarrow> (e, c') \<in> set short_escapes \<Longrightarrow> c = c'"
  by (auto simp: short_escapes_def)

lemma short_escapes_not_u: "(CHR ''u'', c) \<notin> set short_escapes"
  by (simp add: short_escapes_def)

lemma json_chars_unique: "json_chars cs s \<Longrightarrow> json_chars cs s' \<Longrightarrow> s = s'"
proof (induction arbitrary: s' rule: json_chars.induct)
  case chars_end
  from chars_end show ?case
    by (cases rule: json_chars.cases) (simp_all add: valid_rune_def)
next
  case (chars_rune bs cs s)
  from chars_rune(1,2) have h: "hd (bs @ cs) \<noteq> CHR 0x5C"
    using plain_rune_head [of bs] by (simp add: valid_rune_def)
  from chars_rune(5) show ?case
  proof (cases rule: json_chars.cases)
    case chars_end
    with chars_rune(1) show ?thesis by (simp add: valid_rune_def)
  next
    case (chars_rune bs' cs' s'')
    from rune_len_append [OF \<open>valid_rune bs\<close>, of cs] rune_len_append [OF chars_rune(3), of cs']
      chars_rune(1)
    have "length bs = length bs'" by simp
    with chars_rune(1) have e: "bs = bs'" "cs = cs'" by simp_all
    with chars_rune(5) have "json_chars cs s''" by simp
    from chars_rune.IH [OF this] e chars_rune(2) show ?thesis by simp
  next
    case (chars_escape e c cs' s'')
    with h show ?thesis by simp
  next
    case (chars_unicode a b c d cs' s'')
    with h show ?thesis by simp
  qed
next
  case (chars_escape e c cs s)
  from chars_escape(4) show ?case
  proof (cases rule: json_chars.cases)
    case (chars_rune bs' cs' s'')
    then have "hd bs' = CHR 0x5C" by (cases bs') (simp_all add: valid_rune_def)
    with plain_rune_head [OF chars_rune(3,4)] show ?thesis by simp
  next
    case (chars_escape c' s'')
    then have "c = c'" using \<open>(e, c) \<in> set short_escapes\<close> short_escapes_unique by simp
    moreover from chars_escape have "json_chars cs s''" by simp
    from chars_escape.IH [OF this] have "s = s''" .
    ultimately show ?thesis using chars_escape(1) by simp
  next
    case (chars_unicode a b c' d cs' s'')
    with \<open>(e, c) \<in> set short_escapes\<close> short_escapes_not_u show ?thesis by simp
  qed
next
  case (chars_unicode a b c d cs s)
  from chars_unicode(8) show ?case
  proof (cases rule: json_chars.cases)
    case (chars_rune bs' cs' s'')
    then have "hd bs' = CHR 0x5C" by (cases bs') (simp_all add: valid_rune_def)
    with plain_rune_head [OF chars_rune(3,4)] show ?thesis by simp
  next
    case (chars_escape c' s'')
    with short_escapes_not_u show ?thesis by simp
  next
    case (chars_unicode s'')
    then have "json_chars cs s''" by simp
    from chars_unicode.IH [OF this] chars_unicode(1) show ?thesis by simp
  qed
qed


subsection \<open>The function\<close>

lemma json_Marshal_example: "json_Marshal (GMap [(''a'', GInt 1)]) = Inr ''{\"a\":1}''"
  by (simp add: json_string_def escape_byte_def show_int_def show_nat.simps digit_def Let_def)

lemma jsonFunc_example: "jsonFunc (GMap [(''a'', GInt 1)]) = Ok ''{\"a\":1}''"
  unfolding jsonFunc_def json_Marshal_example by simp

text \<open>
  Claim C9. \<open>json\<close> returns what \<open>json.Marshal\<close> returns for its argument. Whenever the
  argument has a JSON value, the call succeeds and the text it returns is a JSON text that
  denotes exactly that value; for a string this is the string between quotes, with the
  bytes that are not UTF-8 replaced by U+FFFD, so a well-formed string denotes itself. The
  call fails with the serialisation error exactly when the argument has no JSON value,
  that is, when it holds a channel or a text marshaller that fails. A unit with the body
  \<open>{{ json . }}\<close> renders the map with the single entry \<open>a: 1\<close> to \<open>{"a":1}\<close>.
\<close>

theorem jsonFunc_serializes:
  "(jsonFunc data = Ok out \<longleftrightarrow> json_Marshal data = Inr out)
   \<and> (to_json data = Some j \<longrightarrow> (\<exists>res. jsonFunc data = Ok res \<and> json_value res j))
   \<and> ((\<exists>msg. jsonFunc data = Err (SerializationError msg)) \<longleftrightarrow> to_json data = None)
   \<and> (\<exists>cs. jsonFunc (GString s) = Ok ([CHR ''\"''] @ cs @ [CHR ''\"'']) \<and> json_chars cs (sanitized s))
   \<and> (ValidString s \<longrightarrow> sanitized s = s)
   \<and> (Lookup (t_template t) name = Some [ActionNode [Call Json [Dot]]]
        \<longrightarrow> Execute fuel t dest_Write \<lparr>received = [], room = None\<rparr> name (GMap [(''a'', GInt 1)])
            = Some (Ok (), \<lparr>received = ''{\"a\":1}'', room = None\<rparr>))"
proof -
  have a: "jsonFunc data = Ok out \<longleftrightarrow> json_Marshal data = Inr out"
    by (simp add: jsonFunc_def split: sum.splits)
  have b: "\<exists>res. jsonFunc data = Ok res \<and> json_value res j" if "to_json data = Some j"
    using that by (rule jsonFunc_denotes)
  have c: "(\<exists>msg. jsonFunc data = Err (SerializationError msg)) \<longleftrightarrow> to_json data = None"
    by (rule jsonFunc_fails)
  have d: "\<exists>cs. jsonFunc (GString s) = Ok ([CHR ''\"''] @ cs @ [CHR ''\"'']) \<and> json_chars cs (sanitized s)"
    using json_chars_string [of s] by (auto simp: jsonFunc_def json_string_def)
  have e: "sanitized s = s" if "ValidString s"
    using that by (rule sanitized_valid)
  have f: "Execute fuel t dest_Write \<lparr>received = [], room = None\<rparr> name (GMap [(''a'', GInt 1)])
            = Some (Ok (), \<lparr>received = ''{\"a\":1}'', room = None\<rparr>)"
    if "Lookup (t_template t) name = Some [ActionNode [Call Json [Dot]]]"
    using that
    by (simp add: Execute_def ExecuteTemplate_def template_Execute_def evalCall_def FuncMap_def
        jsonFunc_example Buffer_WriteTo_def dest_Write_def)
  from a b c d e f show ?thesis by blast
qed

theorem jsonFunc_serializes_witness:
  "to_json (GSlice [GString ''a<b'', GInt (- 12), GNilMap])
     = Some (JArray [JString ''a<b'', JNumber (- 12), JNull])
   \<and> (\<exists>res. jsonFunc (GSlice [GString ''a<b'', GInt (- 12), GNilMap]) = Ok res
          \<and> json_value res (JArray [JString ''a<b'', JNumber (- 12), JNull]))
   \<and> to_json (GMap [(''c'', GChan)]) = None
   \<and> (\<exists>msg. jsonFunc (GMap [(''c'', GChan)]) = Err (SerializationError msg))
   \<and> to_json (GSlice [GTextMarshaler (Inl ''bad'')]) = None
   \<and> (\<exists>msg. jsonFunc (GSlice [GTextMarshaler (Inl ''bad'')]) = Err (SerializationError msg))
   \<and> ValidString ''a<b'' \<and> sanitized ''a<b'' = ''a<b''
   \<and> Execute 0 \<lparr>t_logger = \<lparr>sink = Some \<lparr>verbosity = 0\<rparr>, level = 0\<rparr>, t_names = Some 0,
         t_template = [''j.tmpl'' \<mapsto> [ActionNode [Call Json [Dot]]]]\<rparr>
        dest_Write \<lparr>received = [], room = None\<rparr> ''j.tmpl'' (GMap [(''a'', GInt 1)])
       = Some (Ok (), \<lparr>received = ''{\"a\":1}'', room = None\<rparr>)"
proof -
  let ?t = "\<lparr>t_logger = \<lparr>sink = Some \<lparr>verbosity = 0\<rparr>, level = 0\<rparr>, t_names = Some 0,
         t_template = [''j.tmpl'' \<mapsto> [ActionNode [Call Json [Dot]]]]\<rparr>"
  let ?v = "GSlice [GString ''a<b'', GInt (- 12), GNilMap]"
  let ?j = "JArray [JString ''a<b'', JNumber (- 12), JNull]"
  have v: "ValidString ''a<b''" by (simp add: Let_def)
  have s: "sanitized ''a<b'' = ''a<b''" by (simp add: sanitized_def Let_def)
  have a: "to_json ?v = Some ?j" by (simp add: s)
  have b: "to_json (GMap [(''c'', GChan)]) = None" by simp
  have m: "to_json (GSlice [GTextMarshaler (Inl ''bad'')]) = None" by simp
  have c: "Lookup (t_template ?t) ''j.tmpl'' = Some [ActionNode [Call Json [Dot]]]"
    by (simp add: Lookup_def)
  from jsonFunc_serializes [of ?v _ ?j "''a<b''" ?t "''j.tmpl''" 0] a
  have 1: "\<exists>res. jsonFunc ?v = Ok res \<and> json_value res ?j"
    by blast
  from jsonFunc_serializes [of "GMap [(''c'', GChan)]" _ ?j "''a<b''" ?t "''j.tmpl''" 0] b
  have 2: "\<exists>msg. jsonFunc (GMap [(''c'', GChan)]) = Err (SerializationError msg)"
    by blast
  from jsonFunc_serializes [of "GSlice [GTextMarshaler (Inl ''bad'')]" _ ?j "''a<b''" ?t "''j.tmpl''" 0] m
  have 4: "\<exists>msg. jsonFunc (GSlice [GTextMarshaler (Inl ''bad'')]) = Err (SerializationError msg)"
    by blast
  from jsonFunc_serializes [of GNil _ ?j "''a<b''" ?t "''j.tmpl''" 0] c
  have 3: "Execute 0 ?t dest_Write \<lparr>received = [], room = None\<rparr> ''j.tmpl'' (GMap [(''a'', GInt 1)])
       = Some (Ok (), \<lparr>received = ''{\"a\":1}'', room = None\<rparr>)"
    by blast
  from a 1 b 2 m 4 v s 3 show ?thesis by blast
qed

section \<open>Discovery\<close>

subsection \<open>Paths and their elements\<close>

lemma split_slash_not_Nil: "split_slash s \<noteq> []"
  by (induction s) (auto split: list.splits)

lemma split_slash_plain: "CHR ''/'' \<notin> set e \<Longrightarrow> split_slash e = [e]"
  by (induction e) auto

lemma split_slash_prefix:
  "CHR ''/'' \<notin> set e \<Longrightarrow> split_slash (e @ CHR ''/'' # rest) = e # split_slash rest"
  by (induction e) auto

lemma split_slash_joined:
  "CHR ''/'' \<notin> set e \<Longrightarrow> \<forall>n \<in> set es. CHR ''/'' \<notin> set n \<Longrightarrow>
   split_slash (e @ concat (map (\<lambda>n. CHR ''/'' # n) es)) = e # es"
proof (induction es arbitrary: e)
  case Nil
  then show ?case by (simp add: split_slash_plain)
next
  case (Cons n ns)
  then have "split_slash (n @ concat (map (\<lambda>n. CHR ''/'' # n) ns)) = n # ns"
    by simp
  with Cons.prems(1) show ?case
    by (simp add: split_slash_prefix)
qed

lemma joined_split_slash:
  "split_slash s = e # es \<Longrightarrow> e @ concat (map (\<lambda>n. CHR ''/'' # n) es) = s"
proof (induction s arbitrary: e es)
  case Nil
  then show ?case by simp
next
  case (Cons c cs)
  obtain e1 es1 where sp: "split_slash cs = e1 # es1"
    using split_slash_not_Nil [of cs] by (cases "split_slash cs") auto
  from Cons.IH [OF sp] have j: "e1 @ concat (map (\<lambda>n. CHR ''/'' # n) es1) = cs" .
  show ?case
  proof (cases "c = CHR ''/''")
    case True
    with Cons.prems sp have "e = []" "es = e1 # es1" by simp_all
    with j True show ?thesis by simp
  next
    case False
    with Cons.prems sp have "e = c # e1" "es = es1" by simp_all
    with j show ?thesis by simp
  qed
qed

lemma valid_element_no_slash: "valid_element e \<Longrightarrow> CHR ''/'' \<notin> set e"
  by (simp add: valid_element_def)

lemma rel_path_not_dot: "list_all valid_element q \<Longrightarrow> q \<noteq> [] \<Longrightarrow> rel_path q \<noteq> ''.''"
proof -
  assume v: "list_all valid_element q" and ne: "q \<noteq> []"
  then obtain e es where q: "q = e # es" by (cases q) auto
  show ?thesis
  proof
    assume "rel_path q = ''.''"
    with q have eq: "e @ concat (map (\<lambda>n. CHR ''/'' # n) es) = ''.''" by simp
    from v q have e: "e \<noteq> []" "e \<noteq> ''.''" by (simp_all add: valid_element_def)
    from eq e show False
      by (cases e) (auto simp: Cons_eq_append_conv)
  qed
qed

lemma elements_rel_path: "list_all valid_element q \<Longrightarrow> elements (rel_path q) = q"
proof (cases q)
  case Nil
  then show ?thesis by (simp add: elements_def)
next
  case (Cons e es)
  assume v: "list_all valid_element q"
  with Cons have "split_slash (rel_path q) = q"
    using split_slash_joined [of e es] by (simp add: valid_element_no_slash list_all_iff)
  moreover from v Cons have "rel_path q \<noteq> ''.''"
    using rel_path_not_dot [of q] by simp
  ultimately show ?thesis by (simp add: elements_def)
qed

lemma rel_path_elements: "rel_path (elements name) = name"
proof (cases "name = ''.''")
  case True
  then show ?thesis by (simp add: elements_def)
next
  case False
  obtain e es where sp: "split_slash name = e # es"
    using split_slash_not_Nil [of name] by (cases "split_slash name") auto
  with False joined_split_slash [OF sp] show ?thesis
    by (simp add: elements_def)
qed

lemma path_Join_rel_path:
  "list_all valid_element p \<Longrightarrow> path_Join (rel_path p) n = rel_path (p @ [n])"
proof (cases p)
  case Nil
  then show ?thesis by (simp add: path_Join_def)
next
  case (Cons e es)
  assume "list_all valid_element p"
  with Cons rel_path_not_dot [of p] show ?thesis
    by (simp add: path_Join_def)
qed

subsection \<open>The entries of a tree\<close>

lemma paths_entries_head:
  "q \<in> set (paths_entries es) \<Longrightarrow> \<exists>n q1. q = n # q1 \<and> n \<in> fst ` set es"
proof (induction es)
  case Nil
  then show ?case by simp
next
  case (Cons a es)
  obtain n d where a: "a = (n, d)" by (cases a)
  from Cons.prems a consider "q \<in> set (map (\<lambda>q. n # q) (paths_under d))" | "q \<in> set (paths_entries es)"
    by auto
  then show ?case
  proof cases
    case 1
    with a show ?thesis by auto
  next
    case 2
    from Cons.IH [OF 2] show ?thesis by auto
  qed
qed

lemma paths_valid:
  shows "wf_node d \<Longrightarrow> q \<in> set (paths_under d) \<Longrightarrow> list_all valid_element q"
    and "wf_entries es \<Longrightarrow> q \<in> set (paths_entries es) \<Longrightarrow> list_all valid_element q"
  by (induction d and es arbitrary: q and q rule: wf_node_wf_entries.induct) auto

lemma paths_distinct:
  shows "wf_node d \<Longrightarrow> distinct (paths_under d)"
    and "wf_entries es \<Longrightarrow> distinct (map fst es) \<Longrightarrow> distinct (paths_entries es)"
proof (induction d and es rule: wf_node_wf_entries.induct)
  case (6 n d es)
  then have a: "distinct (paths_under d)" and b: "distinct (paths_entries es)"
    and n: "n \<notin> fst ` set es"
    by simp_all
  have "distinct (map (\<lambda>q. n # q) (paths_under d))"
    using a by (simp add: distinct_map inj_on_def)
  moreover have "set (map (\<lambda>q. n # q) (paths_under d)) \<inter> set (paths_entries es) = {}"
    using n paths_entries_head [of _ es] by fastforce
  ultimately show ?case using b by simp
qed simp_all

lemma map_of_fst: "map_of es n = Some c \<Longrightarrow> n \<in> fst ` set es"
  by (induction es) (auto split: if_splits)

lemma paths_lookup:
  shows "wf_node d \<Longrightarrow>
           (q \<in> set (paths_under d)) = (\<exists>node. lookup_node q d = Some node \<and> \<not> IsDir node)"
    and "wf_entries es \<Longrightarrow> distinct (map fst es) \<Longrightarrow>
           (q \<in> set (paths_entries es)) =
           (\<exists>n q1 c node. q = n # q1 \<and> map_of es n = Some c \<and> lookup_node q1 c = Some node \<and> \<not> IsDir node)"
proof (induction d and es arbitrary: q and q rule: wf_node_wf_entries.induct)
  case (1 es)
  then have ih: "(q \<in> set (paths_entries es)) =
           (\<exists>n q1 c node. q = n # q1 \<and> map_of es n = Some c \<and> lookup_node q1 c = Some node \<and> \<not> IsDir node)"
    by simp
  show ?case
  proof (cases q)
    case Nil
    with ih show ?thesis by simp
  next
    case (Cons n q1)
    with ih show ?thesis by (auto split: option.splits)
  qed
next
  case (2 body)
  then show ?case by (cases q) auto
next
  case 3
  then show ?case by (cases q) auto
next
  case 4
  then show ?case by (cases q) auto
next
  case 5
  then show ?case by simp
next
  case (6 n d es)
  then have wf: "wf_node d" "wf_entries es" "distinct (map fst es)" and n: "n \<notin> fst ` set es"
    by simp_all
  note ih1 = 6(1) [OF wf(1)]
  note ih2 = 6(2) [OF wf(2) wf(3)]
  have other: "map_of es m = Some c \<Longrightarrow> m \<noteq> n" for m c
    using n map_of_fst [of es m c] by auto
  show ?case
  proof (cases q)
    case Nil
    with ih2 [of q] show ?thesis by auto
  next
    case (Cons m q1)
    show ?thesis
    proof (cases "m = n")
      case True
      have "q \<notin> set (paths_entries es)"
        using paths_entries_head [of q es] n Cons True by auto
      with Cons True ih1 [of q1] show ?thesis by auto
    next
      case False
      with Cons ih2 [of q] show ?thesis by auto
    qed
  qed
qed

lemma lookup_node_append:
  "lookup_node (p @ q) n = (case lookup_node p n of None \<Rightarrow> None | Some m \<Rightarrow> lookup_node q m)"
  by (induction p arbitrary: n) (auto split: fsnode.splits option.splits)

lemma wf_entries_map_of: "wf_entries es \<Longrightarrow> map_of es n = Some c \<Longrightarrow> wf_node c"
  by (induction es) (auto split: if_splits)

lemma wf_lookup_node: "wf_node n \<Longrightarrow> lookup_node p n = Some m \<Longrightarrow> wf_node m"
proof (induction p arbitrary: n)
  case Nil
  then show ?case by simp
next
  case (Cons e p)
  then show ?case
    by (cases n) (auto split: option.splits dest: wf_entries_map_of)
qed

subsection \<open>The walk of findFiles\<close>

lemma slice_append_elems:
  "slice_append sl x h = (sl1, h1) \<Longrightarrow> elems h1 sl1 = elems h sl @ [x]"
  by (cases sl) (auto simp: slice_append_def alloc_def elems_def)

lemma slice_append_allocated:
  "slice_append sl x h = (sl1, h1) \<Longrightarrow> (\<forall>r. sl = Some r \<longrightarrow> r < next_ref h) \<Longrightarrow>
   (\<forall>r. sl1 = Some r \<longrightarrow> r < next_ref h1)"
  by (cases sl) (auto simp: slice_append_def alloc_def)

lemma findFiles_fn_entry:
  assumes "findFiles_fn name (Some d) None (t, h) = (e, (t1, h1))"
    and "\<forall>r. t_names t = Some r \<longrightarrow> r < next_ref h"
  shows "e = None
       \<and> elems h1 (t_names t1) = elems h (t_names t) @ (if IsDir d then [] else [name])
       \<and> t_logger t1 = t_logger t \<and> t_template t1 = t_template t
       \<and> (\<forall>r. t_names t1 = Some r \<longrightarrow> r < next_ref h1)"
proof (cases "IsDir d")
  case True
  with assms show ?thesis by (simp add: findFiles_fn_def)
next
  case False
  obtain sl h2 where a: "slice_append (t_names t) name h = (sl, h2)"
    by (cases "slice_append (t_names t) name h")
  with False assms(1) have "e = None" "t1 = t\<lparr>t_names := sl\<rparr>" "h1 = h2"
    by (simp_all add: findFiles_fn_def)
  with False slice_append_elems [OF a] slice_append_allocated [OF a assms(2)] show ?thesis
    by simp
qed

lemma findFiles_fn_error:
  "findFiles_fn name entry (Some err) s = (Some err, s)"
  by (simp add: findFiles_fn_def)

lemma walk_findFiles:
  shows "wf_node d \<Longrightarrow> list_all valid_element p \<Longrightarrow>
           \<forall>r. t_names t = Some r \<longrightarrow> r < next_ref h \<Longrightarrow>
           walkDir (rel_path p) d findFiles_fn (t, h) = (None, (t1, h1)) \<Longrightarrow>
           elems h1 (t_names t1) = elems h (t_names t) @ map (\<lambda>q. rel_path (p @ q)) (paths_under d)
           \<and> t_logger t1 = t_logger t \<and> t_template t1 = t_template t
           \<and> (\<forall>r. t_names t1 = Some r \<longrightarrow> r < next_ref h1)"
    and "wf_entries es \<Longrightarrow> list_all valid_element p \<Longrightarrow>
           \<forall>r. t_names t = Some r \<longrightarrow> r < next_ref h \<Longrightarrow>
           walkEntries (rel_path p) es findFiles_fn (t, h) = (None, (t1, h1)) \<Longrightarrow>
           elems h1 (t_names t1) = elems h (t_names t) @ map (\<lambda>q. rel_path (p @ q)) (paths_entries es)
           \<and> t_logger t1 = t_logger t \<and> t_template t1 = t_template t
           \<and> (\<forall>r. t_names t1 = Some r \<longrightarrow> r < next_ref h1)"
proof (induction d and es arbitrary: p t h t1 h1 and p t h t1 h1 rule: wf_node_wf_entries.induct)
  case (1 es)
  obtain e t2 h2 where f: "findFiles_fn (rel_path p) (Some (Dir es)) None (t, h) = (e, (t2, h2))"
    by (cases "findFiles_fn (rel_path p) (Some (Dir es)) None (t, h)") auto
  note a = findFiles_fn_entry [OF f 1(4)]
  with 1(5) f have w: "walkEntries (rel_path p) es findFiles_fn (t2, h2) = (None, (t1, h1))"
    by simp
  from 1(2) have "wf_entries es" by simp
  from 1(1) [OF this 1(3) _ w] a show ?case by simp
next
  case (2 body)
  from findFiles_fn_entry [of "rel_path p" "File body" t h None t1 h1] 2 show ?case
    by simp
next
  case 3
  from findFiles_fn_entry [of "rel_path p" BadFile t h None t1 h1] 3 show ?case
    by simp
next
  case 4
  obtain e t2 h2 where f: "findFiles_fn (rel_path p) (Some BadDir) None (t, h) = (e, (t2, h2))"
    by (cases "findFiles_fn (rel_path p) (Some BadDir) None (t, h)") auto
  from findFiles_fn_entry [OF f 4(3)] have "e = None" by simp
  with 4(4) f show ?case by (simp add: findFiles_fn_error)
next
  case 5
  then show ?case by simp
next
  case (6 n d es)
  from 6(3) have wf: "valid_element n" "wf_node d" "wf_entries es" by simp_all
  from 6(4) wf(1) have pn: "list_all valid_element (p @ [n])" by simp
  have j: "path_Join (rel_path p) n = rel_path (p @ [n])"
    using 6(4) by (rule path_Join_rel_path)
  obtain e t2 h2 where f: "walkDir (rel_path (p @ [n])) d findFiles_fn (t, h) = (e, (t2, h2))"
    by (cases "walkDir (rel_path (p @ [n])) d findFiles_fn (t, h)") auto
  with 6(6) j have e: "e = None" and w: "walkEntries (rel_path p) es findFiles_fn (t2, h2) = (None, (t1, h1))"
    by (cases e; simp)+
  from 6(1) [OF wf(2) pn 6(5)] f e
  have a: "elems h2 (t_names t2) = elems h (t_names t) @ map (\<lambda>q. rel_path ((p @ [n]) @ q)) (paths_under d)"
    "t_logger t2 = t_logger t" "t_template t2 = t_template t" "\<forall>r. t_names t2 = Some r \<longrightarrow> r < next_ref h2"
    by simp_all
  from 6(2) [OF wf(3) 6(4) a(4) w] a show ?case
    by (simp add: comp_def)
qed

lemma resolve_root:
  "resolve fsys ''.'' = lookup_node (base fsys) (tree fsys)"
  by (simp add: resolve_def ValidPath_def elements_def)

lemma resolve_under_root:
  assumes "resolve fsys ''.'' = Some root"
  shows "resolve fsys name = (if ValidPath name then lookup_node (elements name) root else None)"
proof -
  from assms have "lookup_node (base fsys) (tree fsys) = Some root"
    by (simp only: resolve_root)
  then show ?thesis
    by (simp add: resolve_def lookup_node_append)
qed

lemma findFiles_names:
  assumes "wf_node (tree fsys)" and "t_names t = None"
    and "findFiles fsys (t, h) = (None, (t1, h1))"
  shows "\<exists>root. resolve fsys ''.'' = Some root \<and> wf_node root
           \<and> elems h1 (t_names t1) = map rel_path (paths_under root)
           \<and> t_logger t1 = t_logger t \<and> t_template t1 = t_template t
           \<and> (\<forall>r. t_names t1 = Some r \<longrightarrow> r < next_ref h1)"
proof (cases "resolve fsys ''.''")
  case None
  with assms(3) show ?thesis
    by (simp add: findFiles_def fs_WalkDir_def findFiles_fn_error)
next
  case (Some root)
  with assms(1) have wf: "wf_node root"
    using wf_lookup_node [of "tree fsys" "base fsys" root] by (simp add: resolve_root)
  from Some assms(3) have w: "walkDir (rel_path []) root findFiles_fn (t, h) = (None, (t1, h1))"
    by (simp add: findFiles_def fs_WalkDir_def)
  from walk_findFiles(1) [OF wf _ _ w] assms(2) Some wf show ?thesis
    by (simp add: elems_def)
qed

lemma parseFile_fields:
  "parseFile parse fsys name t = (e, t1) \<Longrightarrow> t_names t1 = t_names t \<and> t_logger t1 = t_logger t"
  by (auto simp: parseFile_def split: sum.splits)

lemma parseFile_read:
  "parseFile parse fsys name t = (None, t1) \<Longrightarrow> \<exists>body. fs_ReadFile fsys name = Inr body"
  by (auto simp: parseFile_def split: sum.splits)

lemma parseFiles_loop_fields:
  "parseFiles_loop parse fsys ns t = (e, t1) \<Longrightarrow> t_names t1 = t_names t \<and> t_logger t1 = t_logger t"
proof (induction ns arbitrary: t)
  case Nil
  then show ?case by simp
next
  case (Cons n ns)
  obtain e2 t2 where p: "parseFile parse fsys n t = (e2, t2)"
    by (cases "parseFile parse fsys n t")
  show ?case
  proof (cases e2)
    case None
    with Cons.prems p have "parseFiles_loop parse fsys ns t2 = (e, t1)" by simp
    from Cons.IH [OF this] parseFile_fields [OF p] show ?thesis by simp
  next
    case (Some err)
    with Cons.prems p parseFile_fields [OF p] show ?thesis by simp
  qed
qed

lemma parseFiles_loop_read:
  "parseFiles_loop parse fsys ns t = (None, t1) \<Longrightarrow> \<forall>n \<in> set ns. \<exists>body. fs_ReadFile fsys n = Inr body"
proof (induction ns arbitrary: t)
  case Nil
  then show ?case by simp
next
  case (Cons n ns)
  obtain e2 t2 where p: "parseFile parse fsys n t = (e2, t2)"
    by (cases "parseFile parse fsys n t")
  with Cons.prems have e2: "e2 = None" and l: "parseFiles_loop parse fsys ns t2 = (None, t1)"
    by (cases e2; simp)+
  from p e2 parseFile_read [of parse fsys n t t2] Cons.IH [OF l] show ?case by simp
qed

lemma fs_ReadFile_File: "fs_ReadFile fsys name = Inr body \<longleftrightarrow> resolve fsys name = Some (File body)"
  by (auto simp: fs_ReadFile_def split: option.splits fsnode.splits)

lemma rel_path_inj:
  "list_all valid_element q1 \<Longrightarrow> list_all valid_element q2 \<Longrightarrow> rel_path q1 = rel_path q2 \<Longrightarrow> q1 = q2"
proof -
  assume v1: "list_all valid_element q1" and v2: "list_all valid_element q2"
    and eq: "rel_path q1 = rel_path q2"
  have "q1 = elements (rel_path q1)"
    using elements_rel_path [OF v1] by (rule sym)
  also have "\<dots> = elements (rel_path q2)"
    by (simp only: eq)
  also have "\<dots> = q2"
    by (rule elements_rel_path [OF v2])
  finally show "q1 = q2" .
qed

lemma names_distinct:
  assumes "wf_node root"
  shows "distinct (map rel_path (paths_under root))"
proof -
  have "inj_on rel_path (set (paths_under root))"
    using paths_valid(1) [OF assms] rel_path_inj by (auto simp: inj_on_def)
  with paths_distinct(1) [OF assms] show ?thesis
    by (simp add: distinct_map)
qed

lemma files_are_names:
  assumes "wf_node root" and "resolve fsys ''.'' = Some root"
    and "resolve fsys name = Some node" and "\<not> IsDir node"
  shows "name \<in> set (map rel_path (paths_under root))"
proof -
  from assms(3) resolve_under_root [OF assms(2), of name]
  have "lookup_node (elements name) root = Some node"
    by (simp split: if_splits)
  with assms(4) paths_lookup(1) [OF assms(1), of "elements name"]
  have "elements name \<in> set (paths_under root)" by blast
  then have "rel_path (elements name) \<in> set (map rel_path (paths_under root))"
    by simp
  then show ?thesis
    by (simp add: rel_path_elements)
qed

lemma Build_success:
  assumes "Build parse b h = (Inr t, h1)"
  obtains bfs fsys t1 where "b_fsys b = Some bfs"
    and "(if b_dir b \<noteq> [] then fs_Sub bfs (b_dir b) else Inr bfs) = Inr fsys"
    and "findFiles fsys (\<lparr>t_logger = b_logger b, t_names = None, t_template = Map.empty\<rparr>, h) = (None, (t1, h1))"
    and "parseFiles_loop parse fsys (elems h1 (t_names t1)) t1 = (None, t)"
proof -
  from assms obtain bfs where a: "b_fsys b = Some bfs" "GetSink (b_logger b) \<noteq> None"
    by (auto simp: Build_def split: if_splits option.splits)
  with assms obtain fsys where b: "(if b_dir b \<noteq> [] then fs_Sub bfs (b_dir b) else Inr bfs) = Inr fsys"
    by (cases "(if b_dir b \<noteq> [] then fs_Sub bfs (b_dir b) else Inr bfs)") (simp_all add: Build_def)
  obtain e t1 h2 where c: "findFiles fsys (\<lparr>t_logger = b_logger b, t_names = None, t_template = Map.empty\<rparr>, h) = (e, (t1, h2))"
    by (cases "findFiles fsys (\<lparr>t_logger = b_logger b, t_names = None, t_template = Map.empty\<rparr>, h)") auto
  with assms a b have e: "e = None"
    by (cases e) (simp_all add: Build_def)
  obtain e2 t2 where d: "parseFiles parse fsys (t1, h2) = (e2, t2)"
    by (cases "parseFiles parse fsys (t1, h2)")
  with assms a b c e have "e2 = None" "t2 = t" "h2 = h1"
    by (cases e2; simp add: Build_def)+
  with a b c d e that show thesis
    by (simp add: parseFiles_def)
qed

subsection \<open>The slice returned by Names\<close>

lemma slice_set_own:
  "slice_set sl i v h = Some h3 \<Longrightarrow> elems h3 sl = (elems h sl)[i := v]"
  by (cases sl) (auto simp: slice_set_def elems_def split: if_splits)

lemma Clone_fresh:
  assumes "\<forall>r. sl0 = Some r \<longrightarrow> r < next_ref h1" and "slices_Clone sl0 h1 = (sl, h2)"
  shows "elems h2 sl = elems h1 sl0"
    and "slice_set sl i v h2 = Some h3 \<Longrightarrow>
           elems h3 sl0 = elems h1 sl0
           \<and> (\<forall>sl4 h4. slices_Clone sl0 h3 = (sl4, h4) \<longrightarrow> elems h4 sl4 = elems h1 sl0)"
proof -
  show "elems h2 sl = elems h1 sl0"
    using assms(2) by (cases sl0) (auto simp: slices_Clone_def alloc_def elems_def)
next
  assume s: "slice_set sl i v h2 = Some h3"
  show "elems h3 sl0 = elems h1 sl0
           \<and> (\<forall>sl4 h4. slices_Clone sl0 h3 = (sl4, h4) \<longrightarrow> elems h4 sl4 = elems h1 sl0)"
  proof (cases sl0)
    case None
    with assms(2) s show ?thesis
      by (simp add: slices_Clone_def slice_set_def)
  next
    case (Some r)
    with assms(1) have r: "r < next_ref h1" by simp
    from Some assms(2) have sl: "sl = Some (next_ref h1)"
      and h2: "h2 = h1\<lparr>cells := (cells h1)(next_ref h1 \<mapsto> elems h1 sl0), next_ref := Suc (next_ref h1)\<rparr>"
      by (simp_all add: slices_Clone_def alloc_def)
    from s sl obtain xs where h3: "h3 = h2\<lparr>cells := (cells h2)(next_ref h1 \<mapsto> xs)\<rparr>"
      by (auto simp: slice_set_def split: if_splits)
    from r Some h2 h3 have same: "elems h3 sl0 = elems h1 sl0"
      by (simp add: elems_def)
    moreover have "elems h4 sl4 = elems h1 sl0" if "slices_Clone sl0 h3 = (sl4, h4)" for sl4 h4
      using that Some same by (auto simp: slices_Clone_def alloc_def elems_def)
    ultimately show ?thesis by blast
  qed
qed

text \<open>
  Claim C4. Let \<open>Build\<close> succeed on a well-formed source tree, and let \<open>fsys\<close> be the source
  narrowed to the directory of the builder, if one was set. Then the slice that \<open>Names\<close>
  returns holds exactly the names that the narrowed source opens as regular files, each
  once, in an order fixed by the tree alone (the directory listings, depth first). The slice
  is a copy: an assignment to one of its elements changes neither the names of the
  template nor what a later call of \<open>Names\<close> returns.
\<close>

theorem Names_after_Build:
  assumes "b_fsys b = Some bfs" and "wf_node (tree bfs)"
    and "(if b_dir b \<noteq> [] then fs_Sub bfs (b_dir b) else Inr bfs) = Inr fsys"
    and "Build parse b h = (Inr t, h1)"
    and "Names t h1 = (sl, h2)"
  shows "set (elems h2 sl) = {name. \<exists>body. resolve fsys name = Some (File body)}
       \<and> distinct (elems h2 sl)
       \<and> (\<exists>root. resolve fsys ''.'' = Some root \<and> elems h2 sl = map rel_path (paths_under root))
       \<and> (\<forall>i v h3. slice_set sl i v h2 = Some h3 \<longrightarrow>
             elems h3 (t_names t) = elems h2 sl
             \<and> (\<forall>sl4 h4. Names t h3 = (sl4, h4) \<longrightarrow> elems h4 sl4 = elems h2 sl))"
proof -
  from assms(4) obtain bfs1 fsys1 t1 where b: "b_fsys b = Some bfs1"
    and s: "(if b_dir b \<noteq> [] then fs_Sub bfs1 (b_dir b) else Inr bfs1) = Inr fsys1"
    and f: "findFiles fsys1 (\<lparr>t_logger = b_logger b, t_names = None, t_template = Map.empty\<rparr>, h) = (None, (t1, h1))"
    and p: "parseFiles_loop parse fsys1 (elems h1 (t_names t1)) t1 = (None, t)"
    by (rule Build_success)
  from b assms(1) have bfs: "bfs1 = bfs" by simp
  from s assms(3) have fsys: "fsys1 = fsys" unfolding bfs by simp
  note f = f [unfolded fsys] and p = p [unfolded fsys]
  have "tree fsys = tree bfs"
    using assms(3) by (auto simp: fs_Sub_def split: if_splits)
  with assms(2) have wf: "wf_node (tree fsys)" by simp
  from findFiles_names [OF wf _ f] obtain root
    where root: "resolve fsys ''.'' = Some root" "wf_node root"
      and names: "elems h1 (t_names t1) = map rel_path (paths_under root)"
      and inv1: "\<forall>r. t_names t1 = Some r \<longrightarrow> r < next_ref h1"
    by auto
  from parseFiles_loop_fields [OF p] have tn: "t_names t = t_names t1" by simp
  with inv1 have inv: "\<forall>r. t_names t = Some r \<longrightarrow> r < next_ref h1" by simp
  from assms(5) have c: "slices_Clone (t_names t) h1 = (sl, h2)" by (simp add: Names_def)
  from Clone_fresh(1) [OF inv c] tn names
  have out: "elems h2 sl = map rel_path (paths_under root)" by simp
  have read: "\<forall>n \<in> set (map rel_path (paths_under root)). \<exists>body. resolve fsys n = Some (File body)"
    using parseFiles_loop_read [OF p] names by (simp add: fs_ReadFile_File)
  have "set (map rel_path (paths_under root)) = {name. \<exists>body. resolve fsys name = Some (File body)}"
  proof (rule set_eqI)
    fix name
    show "name \<in> set (map rel_path (paths_under root))
            \<longleftrightarrow> name \<in> {name. \<exists>body. resolve fsys name = Some (File body)}"
    proof
      assume "name \<in> set (map rel_path (paths_under root))"
      with read show "name \<in> {name. \<exists>body. resolve fsys name = Some (File body)}" by blast
    next
      assume "name \<in> {name. \<exists>body. resolve fsys name = Some (File body)}"
      then obtain body where "resolve fsys name = Some (File body)" by blast
      then show "name \<in> set (map rel_path (paths_under root))"
        using files_are_names [OF root(2) root(1), of name "File body"] by simp
    qed
  qed
  moreover have "distinct (map rel_path (paths_under root))"
    by (rule names_distinct [OF root(2)])
  moreover have "elems h3 (t_names t) = elems h2 sl
             \<and> (\<forall>sl4 h4. Names t h3 = (sl4, h4) \<longrightarrow> elems h4 sl4 = elems h2 sl)"
    if "slice_set sl i v h2 = Some h3" for i v h3
    using Clone_fresh(2) [OF inv c that] Clone_fresh(1) [OF inv c] by (simp add: Names_def)
  ultimately show ?thesis
    using out root(1) by simp
qed

theorem Names_after_Build_witness:
  "wf_node (Dir [(''a.tmpl'', File ''A''), (''d'', Dir [(''b.tmpl'', File ''B''), (''c.tmpl'', File ''C'')])])
   \<and> Build (\<lambda>body. Inr [TextNode body])
        \<lparr>b_logger = \<lparr>sink = Some \<lparr>verbosity = 0\<rparr>, level = 0\<rparr>,
           b_fsys = Some \<lparr>tree = Dir [(''a.tmpl'', File ''A''), (''d'', Dir [(''b.tmpl'', File ''B''), (''c.tmpl'', File ''C'')])], base = []\<rparr>,
           b_dir = []\<rparr>
        \<lparr>cells = Map.empty, next_ref = 0\<rparr>
       = (Inr \<lparr>t_logger = \<lparr>sink = Some \<lparr>verbosity = 0\<rparr>, level = 0\<rparr>, t_names = Some 0,
               t_template = [''a.tmpl'' \<mapsto> [TextNode ''A''], ''d/b.tmpl'' \<mapsto> [TextNode ''B''], ''d/c.tmpl'' \<mapsto> [TextNode ''C'']]\<rparr>,
          \<lparr>cells = [0 \<mapsto> [''a.tmpl'', ''d/b.tmpl'', ''d/c.tmpl'']], next_ref = 1\<rparr>)
   \<and> set [''a.tmpl'', ''d/b.tmpl'', ''d/c.tmpl'']
       = {name. \<exists>body. resolve \<lparr>tree = Dir [(''a.tmpl'', File ''A''), (''d'', Dir [(''b.tmpl'', File ''B''), (''c.tmpl'', File ''C'')])], base = []\<rparr> name
                          = Some (File body)}"
proof -
  let ?fs = "\<lparr>tree = Dir [(''a.tmpl'', File ''A''), (''d'', Dir [(''b.tmpl'', File ''B''), (''c.tmpl'', File ''C'')])], base = []\<rparr>"
  let ?b = "\<lparr>b_logger = \<lparr>sink = Some \<lparr>verbosity = 0\<rparr>, level = 0\<rparr>, b_fsys = Some ?fs, b_dir = []\<rparr>"
  let ?t = "\<lparr>t_logger = \<lparr>sink = Some \<lparr>verbosity = 0\<rparr>, level = 0\<rparr>, t_names = Some 0,
               t_template = [''a.tmpl'' \<mapsto> [TextNode ''A''], ''d/b.tmpl'' \<mapsto> [TextNode ''B''], ''d/c.tmpl'' \<mapsto> [TextNode ''C'']]\<rparr>"
  let ?h1 = "\<lparr>cells = [0 \<mapsto> [''a.tmpl'', ''d/b.tmpl'', ''d/c.tmpl'']], next_ref = 1\<rparr>"
  let ?h2 = "\<lparr>cells = [0 \<mapsto> [''a.tmpl'', ''d/b.tmpl'', ''d/c.tmpl''], 1 \<mapsto> [''a.tmpl'', ''d/b.tmpl'', ''d/c.tmpl'']], next_ref = 2\<rparr>"
  have a: "b_fsys ?b = Some ?fs" by simp
  have b: "wf_node (tree ?fs)" by (simp add: valid_element_def)
  have c: "(if b_dir ?b \<noteq> [] then fs_Sub ?fs (b_dir ?b) else Inr ?fs) = Inr ?fs" by simp
  have d: "Build (\<lambda>body. Inr [TextNode body]) ?b \<lparr>cells = Map.empty, next_ref = 0\<rparr> = (Inr ?t, ?h1)"
    by (simp add: Build_def GetSink_def findFiles_def fs_WalkDir_def resolve_def ValidPath_def
        elements_def findFiles_fn_def slice_append_def alloc_def path_Join_def elems_def
        parseFiles_def parseFile_def fs_ReadFile_def template_Parse_def)
  have e: "Names ?t ?h1 = (Some 1, ?h2)"
    by (simp add: Names_def slices_Clone_def alloc_def elems_def fun_upd_twist)
  from Names_after_Build [OF a b c d e]
  have "set (elems ?h2 (Some 1)) = {name. \<exists>body. resolve ?fs name = Some (File body)}"
    by blast
  then have "set [''a.tmpl'', ''d/b.tmpl'', ''d/c.tmpl''] = {name. \<exists>body. resolve ?fs name = Some (File body)}"
    by (simp add: elems_def)
  with b d show ?thesis by simp
qed


section \<open>Parsing\<close>







end
